theory Spec2Isabelle
  imports Complex_Main
begin

section \<open>Configuration (src/core/token\_fetcher.py, lines 26-39)\<close>

definition API_URLS :: "string list" where
  "API_URLS =
    [''https://jwt.tsunstudio.pw/v1/auth/saeed?uid={uid}&password={password}'',
     ''https://tsun-ff-jwt-api.onrender.com/v1/auth/saeed?uid={uid}&password={password}'',
     ''https://jwt-tsunstudio.onrender.com/v1/auth/saeed?uid={uid}&password={password}'']"

definition MAX_CONCURRENT_PER_API :: nat where "MAX_CONCURRENT_PER_API = 30"
definition BATCH_SIZE :: nat where "BATCH_SIZE = 30"
definition MAX_RETRIES :: nat where "MAX_RETRIES = 15"
definition INITIAL_DELAY :: int where "INITIAL_DELAY = 5"
definition MAX_DELAY :: int where "MAX_DELAY = 120"
definition GITHUB_MAX_RETRIES :: nat where "GITHUB_MAX_RETRIES = 15"

section \<open>Python helpers\<close>

text \<open>
  \<open>xs[a:b]\<close> for indices \<open>0 \<le> a \<le> b\<close>: Python clamps both ends to the length of
  the list, and so do \<open>drop\<close> and \<open>take\<close>.
\<close>

definition slice :: "'a list \<Rightarrow> nat \<Rightarrow> nat \<Rightarrow> 'a list" where
  "slice xs a b = take (b - a) (drop a xs)"

text \<open>The decimal text of a non-negative integer, as an f-string prints it.\<close>

definition digit_char :: "nat \<Rightarrow> char" where
  "digit_char d = ''0123456789'' ! d"

fun str_nat :: "nat \<Rightarrow> string" where
  "str_nat n = (if n < 10 then [digit_char n] else str_nat (n div 10) @ [digit_char (n mod 10)])"

declare str_nat.simps [simp del]

section \<open>Request distributor: \<open>distribute_accounts_across_apis\<close> (lines 109-132)\<close>

text \<open>
  The body of the \<open>for i, api_url in enumerate(API_URLS)\<close> loop. The loop variable
  \<open>start_idx\<close> is threaded through the recursion; the list \<open>distributed\<close> is built in
  the order of the appends.
\<close>

fun distribute_loop ::
  "nat \<Rightarrow> nat \<Rightarrow> 'a list \<Rightarrow> nat \<Rightarrow> (nat \<times> string) list \<Rightarrow> (string \<times> string \<times> 'a list) list"
where
  "distribute_loop accounts_per_api remainder accounts start_idx [] = []"
| "distribute_loop accounts_per_api remainder accounts start_idx ((i, api_url) # rest) =
     (let group_size = accounts_per_api + (if i < remainder then 1 else 0);
          end_idx = start_idx + group_size;
          api_name = ''API_'' @ str_nat (i + 1);
          accounts_group = slice accounts start_idx end_idx
      in (api_url, api_name, accounts_group)
           # distribute_loop accounts_per_api remainder accounts end_idx rest)"

definition distribute_accounts_across_apis :: "'a list \<Rightarrow> (string \<times> string \<times> 'a list) list" where
  "distribute_accounts_across_apis accounts =
     (let total = length accounts;
          accounts_per_api = total div length API_URLS;
          remainder = total mod length API_URLS
      in distribute_loop accounts_per_api remainder accounts 0 (enumerate 0 API_URLS))"

text \<open>The third component of an entry of the distribution: the shard of that endpoint.\<close>

definition shard :: "string \<times> string \<times> 'a list \<Rightarrow> 'a list" where
  "shard d = snd (snd d)"

section \<open>Double-precision arithmetic\<close>

text \<open>
  Python's \<open>float\<close> is the IEEE 754 double. A finite double is \<open>m * 2^e\<close> with an integer
  \<open>m\<close> of at most 53 bits; the pair \<open>(m, e)\<close> stands for it, and \<open>dval\<close> is its value.
  The exponent range is not modelled: the numbers of this program are zero or lie
  between \<open>2^-53\<close> and \<open>2^7\<close>, far from overflow and from the subnormal numbers.
\<close>

type_synonym double = "int \<times> int"

definition dval :: "int \<times> int \<Rightarrow> real" where
  "dval x = of_int (fst x) * 2 powi snd x"

text \<open>
  \<open>int.bit_length()\<close>: the number of binary digits of a positive integer.
\<close>

function bit_length :: "int \<Rightarrow> nat" where
  "bit_length n = (if n \<le> 0 then 0 else Suc (bit_length (n div 2)))"
  by pat_completeness auto
termination
  by (relation "measure nat") auto

declare bit_length.simps [simp del]

text \<open>
  \<open>m / p\<close> rounded to the nearest integer, a tie to the even one (\<open>p\<close> positive): the
  rounding of every arithmetic operation on doubles.
\<close>

definition round_div :: "int \<Rightarrow> int \<Rightarrow> int" where
  "round_div m p =
     (let q = m div p; r = m mod p
      in if 2 * r < p then q else if 2 * r > p then q + 1 else if even q then q else q + 1)"

text \<open>
  The double nearest to the exact number \<open>m * 2^e\<close>: a mantissa of more than 53 bits
  loses its low bits, rounded to nearest, ties to even.
\<close>

definition round_double :: "int \<times> int \<Rightarrow> double" where
  "round_double x =
     (let n = bit_length \<bar>fst x\<bar>
      in if n \<le> 53 then x else (round_div (fst x) (2 ^ (n - 53)), snd x + int (n - 53)))"

text \<open>
  \<open>float(n)\<close>, and the product and the sum of two doubles: the exact result, rounded
  once.
\<close>

definition double_of_int :: "int \<Rightarrow> double" where
  "double_of_int n = round_double (n, 0)"

definition double_mul :: "double \<Rightarrow> double \<Rightarrow> double" where
  "double_mul x y = round_double (fst x * fst y, snd x + snd y)"

definition double_add :: "double \<Rightarrow> double \<Rightarrow> double" where
  "double_add x y =
     (let e = min (snd x) (snd y)
      in round_double (fst x * 2 ^ nat (snd x - e) + fst y * 2 ^ nat (snd y - e), e))"

section \<open>Backoff (lines 197-199 of \<open>fetch_token\<close>, line 291 of \<open>push_to_github\<close>)\<close>

text \<open>
  \<open>random.random()\<close> returns \<open>k / 2^53\<close> for an integer \<open>k\<close> with \<open>0 \<le> k < 2^53\<close>; the draw
  \<open>k\<close> is an argument of the model. \<open>random.uniform(a, b)\<close> is
  \<open>a + (b - a) * self.random()\<close> on the integers \<open>a\<close> and \<open>b\<close>: they are converted to
  doubles, and the product and the sum are rounded.
\<close>

definition random_double :: "int \<Rightarrow> double" where
  "random_double k = (k, - 53)"

definition uniform :: "int \<Rightarrow> int \<Rightarrow> int \<Rightarrow> double" where
  "uniform a b k = double_add (double_of_int a) (double_mul (double_of_int (b - a)) (random_double k))"

text \<open>
  The time \<open>fetch_token\<close> sleeps before the request of \<open>attempt\<close>, for the draw \<open>k\<close>:
  \<open>base_delay + random.uniform(0, 5)\<close>, an integer plus a double. No sleep (zero) when
  \<open>attempt > 0\<close> fails.
\<close>

definition fetch_token_delay :: "nat \<Rightarrow> int \<Rightarrow> double" where
  "fetch_token_delay attempt k =
     (if attempt > 0 then
        (let base_delay = min (INITIAL_DELAY * 2 ^ (attempt - 1)) MAX_DELAY;
             delay = double_add (double_of_int base_delay) (uniform 0 5 k)
         in delay)
      else (0, 0))"

text \<open>
  The same for \<open>push_to_github\<close>, whose loop writes the formula on one line.
\<close>

definition push_to_github_delay :: "nat \<Rightarrow> int \<Rightarrow> double" where
  "push_to_github_delay attempt k =
     (if attempt > 0 then
        double_add (double_of_int (min (INITIAL_DELAY * 2 ^ (attempt - 1)) MAX_DELAY)) (uniform 0 5 k)
      else (0, 0))"

section \<open>Rate-limit coordinator: \<open>RateLimitManager\<close> (lines 50-67)\<close>

text \<open>
  The two flags of the object. \<open>first_error_occurred\<close> is an \<open>asyncio.Event\<close> that
  the class only sets, clears and tests, so it is its flag. The lock makes the body of
  \<open>handle_rate_limit\<close> one indivisible step; the body has no \<open>await\<close> of its own.
  Calls of concurrent tasks therefore happen one after the other, in some order, and
  a run of calls is a list.
\<close>

record RateLimitManager =
  first_error_occurred :: bool
  pause_in_progress :: bool

definition RateLimitManager_init :: RateLimitManager where
  "RateLimitManager_init = \<lparr>first_error_occurred = False, pause_in_progress = False\<rparr>"

definition handle_rate_limit :: "RateLimitManager \<Rightarrow> string \<Rightarrow> bool \<times> RateLimitManager" where
  "handle_rate_limit m uid =
     (if \<not> first_error_occurred m
      then (True, m\<lparr>first_error_occurred := True, pause_in_progress := True\<rparr>)
      else (False, m))"

definition reset :: "RateLimitManager \<Rightarrow> RateLimitManager" where
  "reset m = m\<lparr>first_error_occurred := False, pause_in_progress := False\<rparr>"

text \<open>A run of calls by the tasks \<open>uids\<close>, in the order the lock admits them: the answers.\<close>

fun handle_rate_limit_all :: "RateLimitManager \<Rightarrow> string list \<Rightarrow> bool list \<times> RateLimitManager" where
  "handle_rate_limit_all m [] = ([], m)"
| "handle_rate_limit_all m (uid # uids) =
     (let (is_first, m') = handle_rate_limit m uid;
          (rest, m'') = handle_rate_limit_all m' uids
      in (is_first # rest, m''))"

text \<open>
  The pause broadcast of the caller that got \<open>is_first\<close> (lines 226-229 of
  \<open>fetch_token\<close>): \<open>pause_event.set()\<close>, the sleep of 5 seconds,
  \<open>pause_event.clear()\<close>, and \<open>rate_limit_manager.pause_in_progress = False\<close>. The
  state is the coordinator and the flag of \<open>pause_event\<close>.
\<close>

definition pause_broadcast :: "RateLimitManager \<times> bool \<Rightarrow> RateLimitManager \<times> bool" where
  "pause_broadcast s =
     (let (m, pause_event) = s;
          pause_event = True;
          pause_event = False;
          m = m\<lparr>pause_in_progress := False\<rparr>
      in (m, pause_event))"

section \<open>The pause signal in time (lines 226-233 of \<open>fetch_token\<close>)\<close>

text \<open>
  Time is counted in milliseconds. The caller that got \<open>is_first\<close> at time \<open>t0\<close>
  runs \<open>pause_event.set()\<close>, \<open>await asyncio.sleep(5)\<close>, \<open>pause_event.clear()\<close>: the
  flag of \<open>pause_event\<close> is set from \<open>t0\<close> until 5000 ms later.
\<close>

definition pause_signal :: "nat \<Rightarrow> nat \<Rightarrow> bool" where
  "pause_signal t0 t = (t0 \<le> t \<and> t < t0 + 5000)"

text \<open>
  \<open>asyncio.Event.wait()\<close> waits until the flag is set: called at \<open>now\<close> on a set flag
  it returns at once (\<open>Some now\<close>); on a clear flag it suspends the caller until another
  task calls \<open>set()\<close> (\<open>None\<close>: no return time is known from the flag alone).
\<close>

definition Event_wait :: "bool \<Rightarrow> nat \<Rightarrow> nat option" where
  "Event_wait flag now = (if flag then Some now else None)"

text \<open>
  The branch of a caller that was not first (lines 230-233), entered at \<open>now\<close>, with
  the flag of \<open>pause_event\<close> as a function of time: the time at which the caller goes
  on to its next attempt.
\<close>

definition wait_if_paused :: "(nat \<Rightarrow> bool) \<Rightarrow> nat \<Rightarrow> nat option" where
  "wait_if_paused pause_event now =
     (if pause_event now then
        (case Event_wait (pause_event now) now of
           None \<Rightarrow> None
         | Some woken \<Rightarrow> Some (woken + 100))
      else Some now)"

section \<open>The shared statistics (the dict \<open>stats\<close>)\<close>

text \<open>
  A key of the dict is a field; a key that is absent has the value \<open>None\<close>.
  \<open>stats['k'] += 1\<close> on an absent key raises \<open>KeyError\<close>.
\<close>

datatype error = KeyError string | CancelledError

record stats =
  current_region :: "string option"
  total :: "int option"
  completed :: "int option"
  success :: "int option"
  failed :: "int option"
  timed_out :: "int option"
  api_usage :: "(string \<rightharpoonup> int) option"
  rate_limit_manager :: "RateLimitManager option"

text \<open>The empty dict: \<open>stats = {}\<close>, or \<open>stats.clear()\<close>.\<close>

definition empty_stats :: stats where
  "empty_stats = \<lparr>current_region = None, total = None, completed = None, success = None,
     failed = None, timed_out = None, api_usage = None, rate_limit_manager = None\<rparr>"

definition incr_success :: "stats \<Rightarrow> error + stats" where
  "incr_success st = (case success st of
       None \<Rightarrow> Inl (KeyError ''success'')
     | Some n \<Rightarrow> Inr (st\<lparr>success := Some (n + 1)\<rparr>))"

definition incr_failed :: "stats \<Rightarrow> error + stats" where
  "incr_failed st = (case failed st of
       None \<Rightarrow> Inl (KeyError ''failed'')
     | Some n \<Rightarrow> Inr (st\<lparr>failed := Some (n + 1)\<rparr>))"

definition incr_completed :: "stats \<Rightarrow> error + stats" where
  "incr_completed st = (case completed st of
       None \<Rightarrow> Inl (KeyError ''completed'')
     | Some n \<Rightarrow> Inr (st\<lparr>completed := Some (n + 1)\<rparr>))"

text \<open>
  Lines 210-211: \<open>stats.setdefault('api_usage', {})\<close>, then
  \<open>stats['api_usage'][api_name] = stats['api_usage'].get(api_name, 0) + 1\<close>.
\<close>

definition count_api_usage :: "string \<Rightarrow> stats \<Rightarrow> stats" where
  "count_api_usage api_name st =
     (let usage = (case api_usage st of None \<Rightarrow> Map.empty | Some u \<Rightarrow> u)
      in st\<lparr>api_usage :=
              Some (usage(api_name \<mapsto> (case usage api_name of None \<Rightarrow> 0 | Some n \<Rightarrow> n) + 1))\<rparr>)"

section \<open>Retrying fetcher: \<open>fetch_token\<close> (lines 185-258)\<close>

text \<open>
  What the network answers to the request of one attempt. \<open>Status200 t\<close> carries
  \<open>data.get("token")\<close>, \<open>None\<close> when the body has no such field. \<open>RequestError\<close> is any
  exception of the request or of the decoding of its body (connection error, request
  timeout, JSON error): the \<open>except\<close> clause catches them all alike.
\<close>

datatype response =
    Status200 "string option"
  | Status429
  | Status500
  | StatusOther nat
  | RequestError

text \<open>
  What happens in one attempt: the request is answered, or the timeout of the
  surrounding \<open>asyncio.wait_for\<close> expires while the task is suspended in the attempt's
  backoff sleep or request, and cancels it there.
\<close>

datatype attempt_event = Response response | ItemTimeout

text \<open>
  The branch for HTTP 429 (lines 221-233). A caller that is not first changes no state:
  what it waits for is \<open>wait_if_paused\<close> above.
\<close>

definition on_rate_limit :: "string \<Rightarrow> stats \<Rightarrow> bool \<Rightarrow> stats \<times> bool" where
  "on_rate_limit uid st pause_event =
     (case rate_limit_manager st of
        None \<Rightarrow> (st, pause_event)
      | Some m \<Rightarrow>
          (let (is_first, m') = handle_rate_limit m uid in
           if is_first then
             (let (m'', pause_event') = pause_broadcast (m', pause_event)
              in (st\<lparr>rate_limit_manager := Some m''\<rparr>, pause_event'))
           else (st\<lparr>rate_limit_manager := Some m'\<rparr>, pause_event)))"

text \<open>
  The \<open>try\<close> block of one attempt, after the backoff sleep: \<open>Some token\<close> when the
  function returns from inside the loop, \<open>None\<close> when the loop goes on. A \<open>KeyError\<close> of
  the accounting on lines 207-208 is raised inside the \<open>try\<close> and caught by its
  \<open>except\<close> clause, so the loop goes on with what was written before it.
\<close>

definition attempt_body ::
  "response \<Rightarrow> string \<Rightarrow> string \<Rightarrow> stats \<Rightarrow> bool \<Rightarrow> string option \<times> stats \<times> bool"
where
  "attempt_body resp uid api_name st pause_event =
     (case resp of
        Status200 token \<Rightarrow>
          (case token of
             None \<Rightarrow> (None, st, pause_event)
           | Some t \<Rightarrow>
               if t = [] then (None, st, pause_event)
               else (case incr_success st of
                  Inl e \<Rightarrow> (None, st, pause_event)
                | Inr st1 \<Rightarrow>
                    (case incr_completed st1 of
                       Inl e \<Rightarrow> (None, st1, pause_event)
                     | Inr st2 \<Rightarrow> (Some t, count_api_usage api_name st2, pause_event))))
      | Status429 \<Rightarrow>
          (let (st', pause_event') = on_rate_limit uid st pause_event
           in (None, st', pause_event'))
      | Status500 \<Rightarrow> (None, st, pause_event)
      | StatusOther code \<Rightarrow> (None, st, pause_event)
      | RequestError \<Rightarrow> (None, st, pause_event))"

text \<open>
  The loop \<open>for attempt in range(MAX_RETRIES)\<close>, over the attempts still to run. The
  answers of the network are the function \<open>net\<close> of the attempt number.
\<close>

datatype loop_exit = ReturnToken string | LoopDone | TaskCancelled

fun fetch_token_loop ::
  "(nat \<Rightarrow> attempt_event) \<Rightarrow> string \<Rightarrow> string \<Rightarrow> nat list \<Rightarrow> stats \<Rightarrow> bool
     \<Rightarrow> loop_exit \<times> stats \<times> bool"
where
  "fetch_token_loop net uid api_name [] st pause_event = (LoopDone, st, pause_event)"
| "fetch_token_loop net uid api_name (attempt # rest) st pause_event =
     (case net attempt of
        ItemTimeout \<Rightarrow> (TaskCancelled, st, pause_event)
      | Response resp \<Rightarrow>
          (case attempt_body resp uid api_name st pause_event of
             (Some token, st', pause_event') \<Rightarrow> (ReturnToken token, st', pause_event')
           | (None, st', pause_event') \<Rightarrow>
               if attempt = MAX_RETRIES - 1 then (LoopDone, st', pause_event')
               else fetch_token_loop net uid api_name rest st' pause_event'))"

text \<open>
  The function: the loop, then lines 256-258. The result is \<open>Inr (Some token)\<close> for
  \<open>{"token": token}\<close>, \<open>Inr None\<close> for \<open>None\<close>, and \<open>Inl e\<close> for an exception that leaves
  the function. The URL and the log are not modelled.
\<close>

definition fetch_token ::
  "(nat \<Rightarrow> attempt_event) \<Rightarrow> string \<Rightarrow> string \<Rightarrow> stats \<Rightarrow> bool
     \<Rightarrow> (error + string option) \<times> stats \<times> bool"
where
  "fetch_token net uid api_name st pause_event =
     (case fetch_token_loop net uid api_name [0..<MAX_RETRIES] st pause_event of
        (ReturnToken token, st', pause_event') \<Rightarrow> (Inr (Some token), st', pause_event')
      | (TaskCancelled, st', pause_event') \<Rightarrow> (Inl CancelledError, st', pause_event')
      | (LoopDone, st', pause_event') \<Rightarrow>
          (case incr_failed st' of
             Inl e \<Rightarrow> (Inl e, st', pause_event')
           | Inr st1 \<Rightarrow>
               (case incr_completed st1 of
                  Inl e \<Rightarrow> (Inl e, st1, pause_event')
                | Inr st2 \<Rightarrow> (Inr None, st2, pause_event'))))"

section \<open>Per-item timeout: \<open>fetch_token_with_timeout\<close> (lines 93-107)\<close>

text \<open>
  \<open>asyncio.wait_for\<close> returns what \<open>fetch_token\<close> returns, passes on its exceptions,
  and raises \<open>TimeoutError\<close> when its timeout cancelled the task; the \<open>except\<close> clause
  then does the accounting of lines 101-103 and returns \<open>None\<close>.
\<close>

definition fetch_token_with_timeout ::
  "(nat \<Rightarrow> attempt_event) \<Rightarrow> string \<Rightarrow> string \<Rightarrow> stats \<Rightarrow> bool
     \<Rightarrow> (error + string option) \<times> stats \<times> bool"
where
  "fetch_token_with_timeout net uid api_name st pause_event =
     (case fetch_token net uid api_name st pause_event of
        (Inr r, st', pause_event') \<Rightarrow> (Inr r, st', pause_event')
      | (Inl (KeyError k), st', pause_event') \<Rightarrow> (Inl (KeyError k), st', pause_event')
      | (Inl CancelledError, st', pause_event') \<Rightarrow>
          (case incr_failed st' of
             Inl e \<Rightarrow> (Inl e, st', pause_event')
           | Inr st1 \<Rightarrow>
               (case incr_completed st1 of
                  Inl e \<Rightarrow> (Inl e, st1, pause_event')
                | Inr st2 \<Rightarrow>
                    (Inr None,
                     st2\<lparr>timed_out := Some ((case timed_out st2 of None \<Rightarrow> 0 | Some n \<Rightarrow> n) + 1)\<rparr>,
                     pause_event'))))"

section \<open>Batch scheduler: \<open>process_api_batch\<close> (lines 135-182)\<close>

text \<open>
  An account is the dict of one valid record; only \<open>acc["uid"]\<close> and
  \<open>acc["password"]\<close> are read.
\<close>

record account =
  uid :: string
  password :: string

text \<open>
  The tasks of one \<open>asyncio.gather\<close> run interleaved, but every change of \<open>stats\<close> is
  made between two \<open>await\<close>s of a single task (lines 101-103, 207-211, 256-257), and
  no task reads a counter to decide anything: the accounting of the tasks is the same
  as if they ran one after the other, which is how the model runs them. \<open>net idx\<close> is
  what the network answers to the account at position \<open>idx\<close> of the shard. The semaphore
  admits \<open>MAX_CONCURRENT_PER_API\<close> tasks, as many as a batch holds, and delays none.
\<close>

fun gather_batch ::
  "(nat \<Rightarrow> nat \<Rightarrow> attempt_event) \<Rightarrow> string \<Rightarrow> nat \<Rightarrow> account list \<Rightarrow> stats \<Rightarrow> bool
     \<Rightarrow> (error + string option list) \<times> stats \<times> bool"
where
  "gather_batch net api_name idx [] st pause_event = (Inr [], st, pause_event)"
| "gather_batch net api_name idx (acc # batch) st pause_event =
     (case fetch_token_with_timeout (net idx) (uid acc) api_name st pause_event of
        (Inl e, st', pause_event') \<Rightarrow> (Inl e, st', pause_event')
      | (Inr r, st', pause_event') \<Rightarrow>
          (case gather_batch net api_name (idx + 1) batch st' pause_event' of
             (Inl e, st'', pause_event'') \<Rightarrow> (Inl e, st'', pause_event'')
           | (Inr rs, st'', pause_event'') \<Rightarrow> (Inr (r # rs), st'', pause_event'')))"

text \<open>The loop \<open>for batch_idx in range(0, total_accounts, BATCH_SIZE)\<close>, from \<open>batch_idx\<close> on.\<close>

function process_batches ::
  "(nat \<Rightarrow> nat \<Rightarrow> attempt_event) \<Rightarrow> string \<Rightarrow> account list \<Rightarrow> nat \<Rightarrow> stats \<Rightarrow> bool
     \<Rightarrow> (error + string option list) \<times> stats \<times> bool"
where
  "process_batches net api_name accounts batch_idx st pause_event =
     (if batch_idx < length accounts then
        (let batch = slice accounts batch_idx (batch_idx + BATCH_SIZE) in
         case gather_batch net api_name batch_idx batch st pause_event of
           (Inl e, st', pause_event') \<Rightarrow> (Inl e, st', pause_event')
         | (Inr batch_results, st', pause_event') \<Rightarrow>
             (case process_batches net api_name accounts (batch_idx + BATCH_SIZE) st' pause_event' of
                (Inl e, st'', pause_event'') \<Rightarrow> (Inl e, st'', pause_event'')
              | (Inr all_results, st'', pause_event'') \<Rightarrow>
                  (Inr (batch_results @ all_results), st'', pause_event'')))
      else (Inr [], st, pause_event))"
  by pat_completeness auto
termination
  by (relation "measure (\<lambda>(net, api_name, accounts, batch_idx, st, pause_event).
        length accounts - batch_idx)") (auto simp: BATCH_SIZE_def)

declare process_batches.simps [simp del]

definition process_api_batch ::
  "(nat \<Rightarrow> nat \<Rightarrow> attempt_event) \<Rightarrow> string \<Rightarrow> account list \<Rightarrow> stats \<Rightarrow> bool
     \<Rightarrow> (error + string option list) \<times> stats \<times> bool"
where
  "process_api_batch net api_name accounts st pause_event =
     (if accounts = [] then (Inr [], st, pause_event)
      else process_batches net api_name accounts 0 st pause_event)"

section \<open>Result sink: \<open>push_to_github\<close> (lines 279-323)\<close>

text \<open>
  What one attempt's \<open>session.put\<close> does: it answers with a status code, or an
  exception is raised in the attempt (\<open>get_github_file_sha\<close> itself raises none).
\<close>

datatype put_event = PutStatus nat | PutRaises

fun push_loop :: "(nat \<Rightarrow> put_event) \<Rightarrow> nat list \<Rightarrow> bool" where
  "push_loop puts [] = False"
| "push_loop puts (attempt # rest) =
     (case puts attempt of
        PutStatus code \<Rightarrow> if code = 200 \<or> code = 201 then True else push_loop puts rest
      | PutRaises \<Rightarrow> push_loop puts rest)"

text \<open>\<open>github_token\<close> is the value of \<open>GITHUB_TOKEN\<close>: \<open>None\<close> or empty when not configured.\<close>

definition push_to_github ::
  "string option \<Rightarrow> (nat \<Rightarrow> put_event) \<Rightarrow> string \<Rightarrow> string list \<Rightarrow> bool"
where
  "push_to_github github_token puts filename content =
     (case github_token of
        None \<Rightarrow> False
      | Some t \<Rightarrow> if t = [] then False else push_loop puts [0..<GITHUB_MAX_RETRIES])"

section \<open>Region orchestrator: \<open>process_region\<close> (lines 326-464)\<close>

text \<open>
  An entry of the loaded JSON list: something that is not a dict, or a dict with what
  it holds under \<open>uid\<close> and under \<open>password\<close>.
\<close>

datatype json_entry = NotADict | Dict "string option" "string option"

definition as_account :: "json_entry \<Rightarrow> account option" where
  "as_account acc =
     (case acc of
        Dict (Some u) (Some p) \<Rightarrow> Some \<lparr>uid = u, password = p\<rparr>
      | _ \<Rightarrow> None)"

text \<open>
  The world of one call. \<open>accounts_file\<close> is what \<open>json.load\<close> returns, \<open>None\<close> when
  the file cannot be read. \<open>network api_name idx attempt\<close> is the answer to an attempt
  for the account at position \<open>idx\<close> of the shard of \<open>api_name\<close>. \<open>region_timeout\<close> is
  \<open>None\<close> when the fetch phase ends within 1200 s; otherwise it lists the fetches
  (endpoint name, position in its shard) that had completed when the timeout fired, in
  the order they completed: all others are cancelled with the gather and account
  nothing. \<open>write_ok\<close> tells whether the local token file can be written.
\<close>

record region_env =
  accounts_file :: "json_entry list option"
  network :: "string \<Rightarrow> nat \<Rightarrow> nat \<Rightarrow> attempt_event"
  region_timeout :: "(string \<times> nat) list option"
  write_ok :: bool
  github_token :: "string option"
  puts :: "nat \<Rightarrow> put_event"

text \<open>\<open>str.upper\<close> on ASCII letters.\<close>

definition upper_char :: "char \<Rightarrow> char" where
  "upper_char c =
     (let n = (of_char c :: nat) in if 97 \<le> n \<and> n \<le> 122 then char_of (n - 32) else c)"

definition upper :: "string \<Rightarrow> string" where
  "upper s = map upper_char s"

text \<open>Lines 363-371: the keys the function assigns before the fetch phase.\<close>

definition region_setup :: "string \<Rightarrow> nat \<Rightarrow> stats \<Rightarrow> stats" where
  "region_setup region n st =
     st\<lparr>current_region := Some (upper region),
        total := Some (int n),
        completed := Some 0,
        success := Some 0,
        failed := Some 0,
        timed_out := Some 0,
        rate_limit_manager := Some RateLimitManager_init\<rparr>"

text \<open>\<open>asyncio.gather(*api_tasks)\<close>, the endpoints' tasks run in the order of the list.\<close>

fun gather_apis ::
  "(string \<Rightarrow> nat \<Rightarrow> nat \<Rightarrow> attempt_event) \<Rightarrow> (string \<times> string \<times> account list) list \<Rightarrow> stats \<Rightarrow> bool
     \<Rightarrow> (error + string option list list) \<times> stats \<times> bool"
where
  "gather_apis net [] st pause_event = (Inr [], st, pause_event)"
| "gather_apis net ((api_url, api_name, accounts_group) # rest) st pause_event =
     (case process_api_batch (net api_name) api_name accounts_group st pause_event of
        (Inl e, st', pause_event') \<Rightarrow> (Inl e, st', pause_event')
      | (Inr api_result, st', pause_event') \<Rightarrow>
          (case gather_apis net rest st' pause_event' of
             (Inl e, st'', pause_event'') \<Rightarrow> (Inl e, st'', pause_event'')
           | (Inr api_results, st'', pause_event'') \<Rightarrow>
               (Inr (api_result # api_results), st'', pause_event'')))"

text \<open>The account at a position of an endpoint's shard, if there is one.\<close>

definition account_at ::
  "(string \<times> string \<times> account list) list \<Rightarrow> string \<Rightarrow> nat \<Rightarrow> account option"
where
  "account_at api_distribution api_name idx =
     (case filter (\<lambda>d. fst (snd d) = api_name) api_distribution of
        [] \<Rightarrow> None
      | d # _ \<Rightarrow> if idx < length (shard d) then Some (shard d ! idx) else None)"

text \<open>The fetches that complete before the region timeout fires, in their order.\<close>

fun run_completed ::
  "(string \<Rightarrow> nat \<Rightarrow> nat \<Rightarrow> attempt_event) \<Rightarrow> (string \<times> string \<times> account list) list
     \<Rightarrow> (string \<times> nat) list \<Rightarrow> stats \<Rightarrow> bool \<Rightarrow> (error + unit) \<times> stats \<times> bool"
where
  "run_completed net api_distribution [] st pause_event = (Inr (), st, pause_event)"
| "run_completed net api_distribution ((api_name, idx) # finished) st pause_event =
     (case account_at api_distribution api_name idx of
        None \<Rightarrow> run_completed net api_distribution finished st pause_event
      | Some acc \<Rightarrow>
          (case fetch_token_with_timeout (net api_name idx) (uid acc) api_name st pause_event of
             (Inl e, st', pause_event') \<Rightarrow> (Inl e, st', pause_event')
           | (Inr r, st', pause_event') \<Rightarrow>
               run_completed net api_distribution finished st' pause_event'))"

text \<open>
  Lines 399-412: the gather under \<open>asyncio.wait_for(..., timeout=1200)\<close>, and the value
  of \<open>results\<close> after the \<open>try\<close> statement. An exception other than the timeout leaves
  the function.
\<close>

definition fetch_phase ::
  "region_env \<Rightarrow> (string \<times> string \<times> account list) list \<Rightarrow> nat \<Rightarrow> stats \<Rightarrow> bool
     \<Rightarrow> (error + string option list) \<times> stats \<times> bool"
where
  "fetch_phase env api_distribution n st pause_event =
     (case region_timeout env of
        None \<Rightarrow>
          (case gather_apis (network env) api_distribution st pause_event of
             (Inl e, st', pause_event') \<Rightarrow> (Inl e, st', pause_event')
           | (Inr api_results, st', pause_event') \<Rightarrow> (Inr (concat api_results), st', pause_event'))
      | Some finished \<Rightarrow>
          (case run_completed (network env) api_distribution finished st pause_event of
             (Inl e, st', pause_event') \<Rightarrow> (Inl e, st', pause_event')
           | (Inr u, st', pause_event') \<Rightarrow> (Inr (replicate n None), st', pause_event')))"

text \<open>
  Lines 431-455: the local token file is written, pushed and removed. The file system
  maps a path to the token list saved there. An \<open>open\<close> that fails raises inside the
  \<open>try\<close>, whose \<open>except\<close> clause only logs. The value \<open>push_to_github\<close> returns is not
  bound to a name in the source; \<open>pushed\<close> names it here.
\<close>

definition TOKENS_DIR :: string where
  "TOKENS_DIR = ''tokens''"

definition save_and_push ::
  "region_env \<Rightarrow> string \<Rightarrow> string list \<Rightarrow> (string \<rightharpoonup> string list) \<Rightarrow> (string \<rightharpoonup> string list)"
where
  "save_and_push env region valid_tokens fs =
     (let token_filename = ''token_'' @ region @ ''.json'';
          token_save_path = TOKENS_DIR @ ''/'' @ token_filename
      in if \<not> write_ok env then fs
         else
           (let fs = fs(token_save_path \<mapsto> valid_tokens);
                pushed = push_to_github (github_token env) (puts env) token_filename valid_tokens
            in if fs token_save_path \<noteq> None then fs(token_save_path := None) else fs))"

text \<open>
  The dict the function returns, without \<open>success_rate\<close> and \<open>duration\<close> (a float and
  a clock reading).
\<close>

record region_result =
  res_region :: string
  res_total :: int
  res_success :: int
  res_failed :: int

definition process_region ::
  "region_env \<Rightarrow> string \<Rightarrow> stats \<Rightarrow> (string \<rightharpoonup> string list)
     \<Rightarrow> (error + region_result option) \<times> stats \<times> (string \<rightharpoonup> string list)"
where
  "process_region env region st fs =
     (case accounts_file env of
        None \<Rightarrow> (Inr None, st, fs)
      | Some accounts \<Rightarrow>
          (let valid_accounts = List.map_filter as_account accounts;
               n = length valid_accounts
           in if n = 0 then (Inr None, st, fs)
              else
                (let api_distribution = distribute_accounts_across_apis valid_accounts;
                     st = region_setup region n st;
                     pause_event = False
                 in case fetch_phase env api_distribution n st pause_event of
                      (Inl e, st', pause_event') \<Rightarrow> (Inl e, st', fs)
                    | (Inr results, st', pause_event') \<Rightarrow>
                        (let valid_tokens = List.map_filter id results;
                             fs' = save_and_push env region valid_tokens fs
                         in (Inr (Some \<lparr>res_region = upper region,
                                        res_total = int n,
                                        res_success = int (length valid_tokens),
                                        res_failed = int n - int (length valid_tokens)\<rparr>),
                             st', fs')))))"

section \<open>Run orchestrator: \<open>run_token_fetch\<close> (lines 467-514)\<close>

text \<open>
  The loop over the region files, each given by its region name (the last part of the
  file's stem, in lower case) and its world. The callback is not modelled.
\<close>

fun run_regions ::
  "(string \<times> region_env) list \<Rightarrow> stats \<Rightarrow> (string \<rightharpoonup> string list)
     \<Rightarrow> (error + region_result list) \<times> stats \<times> (string \<rightharpoonup> string list)"
where
  "run_regions [] st fs = (Inr [], st, fs)"
| "run_regions ((region, env) # account_files) st fs =
     (case process_region env region st fs of
        (Inl e, st', fs') \<Rightarrow> (Inl e, st', fs')
      | (Inr region_result, st', fs') \<Rightarrow>
          (case run_regions account_files st' fs' of
             (Inl e, st'', fs'') \<Rightarrow> (Inl e, st'', fs'')
           | (Inr results, st'', fs'') \<Rightarrow>
               (Inr ((case region_result of None \<Rightarrow> [] | Some r \<Rightarrow> [r]) @ results), st'', fs'')))"

text \<open>
  \<open>None\<close> is the error status for an empty list of files. The dict passed in is
  cleared, a missing one is created empty: the run starts from the empty dict.
\<close>

definition run_token_fetch ::
  "(string \<times> region_env) list \<Rightarrow> stats option \<Rightarrow> (string \<rightharpoonup> string list)
     \<Rightarrow> (error + region_result list option) \<times> stats option \<times> (string \<rightharpoonup> string list)"
where
  "run_token_fetch account_files stats_arg fs =
     (if account_files = [] then (Inr None, stats_arg, fs)
      else
        (let st = (case stats_arg of None \<Rightarrow> empty_stats | Some s \<Rightarrow> empty_stats)
         in case run_regions account_files st fs of
              (Inl e, st', fs') \<Rightarrow> (Inl e, Some st', fs')
            | (Inr results, st', fs') \<Rightarrow> (Inr (Some results), Some st', fs')))"

section \<open>Vocabulary of the statements\<close>

text \<open>An answer that carries a token: HTTP 200 with a \<open>token\<close> field that is not empty.\<close>

definition has_token :: "response \<Rightarrow> bool" where
  "has_token resp = (case resp of Status200 (Some t) \<Rightarrow> t \<noteq> [] | _ \<Rightarrow> False)"

text \<open>
  \<open>accounted st st' rs\<close>: from \<open>st\<close> to \<open>st'\<close> the counters moved by exactly the calls
  whose results are \<open>rs\<close>, one \<open>completed\<close> each, one \<open>success\<close> per token and one
  \<open>failed\<close> per \<open>None\<close>; \<open>total\<close> did not move.
\<close>

definition accounted :: "stats \<Rightarrow> stats \<Rightarrow> string option list \<Rightarrow> bool" where
  "accounted st st' rs =
     (\<exists>s f c. success st = Some s \<and> failed st = Some f \<and> completed st = Some c
        \<and> success st' = Some (s + int (length (filter (\<lambda>r. r \<noteq> None) rs)))
        \<and> failed st' = Some (f + int (length (filter (\<lambda>r. r = None) rs)))
        \<and> completed st' = Some (c + int (length rs))
        \<and> total st' = total st)"

section \<open>Distribution: lemmas\<close>

lemma shard_simp: "shard (api_url, api_name, accounts_group) = accounts_group"
  by (simp add: shard_def)

lemma distribute_loop_length:
  "length (distribute_loop a r accounts s es) = length es"
  by (induction es arbitrary: s) (auto simp: Let_def)

lemma distribute_loop_urls:
  "map fst (distribute_loop a r accounts s es) = map snd es"
  by (induction es arbitrary: s) (auto simp: Let_def)

lemma distribute_loop_names:
  "map (fst \<circ> snd) (distribute_loop a r accounts s es) = map (\<lambda>(i, u). ''API_'' @ str_nat (i + 1)) es"
  by (induction es arbitrary: s) (auto simp: Let_def)

lemma distribute_loop_concat:
  "concat (map shard (distribute_loop a r accounts s es)) =
     take (sum_list (map (\<lambda>(i, u). a + (if i < r then 1 else 0)) es)) (drop s accounts)"
proof (induction es arbitrary: s)
  case Nil
  then show ?case by simp
next
  case (Cons e es)
  obtain i u where e: "e = (i, u)" by (cases e)
  show ?case
    by (simp add: e Let_def shard_simp slice_def Cons.IH take_add add.commute)
qed

lemma distribute_loop_sizes:
  "s + sum_list (map (\<lambda>(i, u). a + (if i < r then 1 else 0)) es) \<le> length accounts \<Longrightarrow>
   map (length \<circ> shard) (distribute_loop a r accounts s es) =
     map (\<lambda>(i, u). a + (if i < r then 1 else 0)) es"
proof (induction es arbitrary: s)
  case Nil
  then show ?case by simp
next
  case (Cons e es)
  obtain i u where e: "e = (i, u)" by (cases e)
  from Cons.prems have fits: "s + (a + (if i < r then 1 else 0)) \<le> length accounts"
    by (simp add: e)
  from Cons.prems have rest:
    "(s + (a + (if i < r then 1 else 0))) + sum_list (map (\<lambda>(i, u). a + (if i < r then 1 else 0)) es)
       \<le> length accounts"
    by (simp add: e add.assoc)
  have "length (slice accounts s (s + (a + (if i < r then 1 else 0)))) = a + (if i < r then 1 else 0)"
    using fits by (simp add: slice_def)
  then show ?case
    using Cons.IH [OF rest] by (simp add: e Let_def shard_simp)
qed

lemma sum_sizes_upt:
  "sum_list (map (\<lambda>i. a + (if i < r then 1 else 0)) [0..<k]) = k * a + min r k"
  by (induction k) (auto simp: min_def)

lemma sum_sizes_enumerate:
  "sum_list (map (\<lambda>(i, u). a + (if i < r then 1 else (0::nat))) (enumerate 0 us)) =
     length us * a + min r (length us)"
proof -
  have "map (\<lambda>(i, u). a + (if i < r then 1 else (0::nat))) (enumerate 0 us) =
        map (\<lambda>i. a + (if i < r then 1 else 0)) (map fst (enumerate 0 us))"
    unfolding map_map by (rule map_cong) auto
  then show ?thesis
    by (simp only: map_fst_enumerate sum_sizes_upt add_0)
qed


lemma distribute_sizes:
  fixes accounts :: "'a list"
  shows "map (length \<circ> shard) (distribute_accounts_across_apis accounts) =
     map (\<lambda>i. length accounts div length API_URLS
                + (if i < length accounts mod length API_URLS then 1 else 0))
         [0..<length API_URLS]"
proof -
  let ?n = "length accounts" and ?k = "length API_URLS"
  let ?f = "\<lambda>(i, u::string). ?n div ?k + (if i < ?n mod ?k then 1 else (0::nat))"
  have k: "0 < ?k" by (simp add: API_URLS_def)
  then have "min (?n mod ?k) ?k = ?n mod ?k" by simp
  then have fits: "0 + sum_list (map ?f (enumerate 0 API_URLS)) \<le> ?n"
    by (simp add: sum_sizes_enumerate)
  have "map ?f (enumerate 0 API_URLS) =
        map (\<lambda>i. ?n div ?k + (if i < ?n mod ?k then 1 else 0)) (map fst (enumerate 0 API_URLS))"
    unfolding map_map by (rule map_cong) auto
  then show ?thesis
    using distribute_loop_sizes [OF fits]
    by (simp add: distribute_accounts_across_apis_def Let_def)
qed

lemma distribute_concat:
  "concat (map shard (distribute_accounts_across_apis accounts)) = accounts"
proof -
  have "0 < length API_URLS" by (simp add: API_URLS_def)
  then have "min (length accounts mod length API_URLS) (length API_URLS)
               = length accounts mod length API_URLS"
    by simp
  then show ?thesis
    by (simp add: distribute_accounts_across_apis_def Let_def distribute_loop_concat
          sum_sizes_enumerate)
qed

lemma sizes_spread:
  assumes "0 < k"
  shows "Max (set (map (\<lambda>i. b + (if i < r then 1 else (0::nat))) [0..<k]))
           \<le> Min (set (map (\<lambda>i. b + (if i < r then 1 else 0)) [0..<k])) + 1"
proof -
  let ?S = "set (map (\<lambda>i. b + (if i < r then 1 else (0::nat))) [0..<k])"
  have fin: "finite ?S" by simp
  have ne: "?S \<noteq> {}" using assms by simp
  have lo: "\<forall>x\<in>?S. b \<le> x" by auto
  have hi: "\<forall>x\<in>?S. x \<le> b + 1" by auto
  have "Max ?S \<le> b + 1" using Max_le_iff [OF fin ne] hi by blast
  moreover have "b \<le> Min ?S" using Min_ge_iff [OF fin ne] lo by blast
  ultimately show ?thesis by linarith
qed

section \<open>Request distributor: the claim\<close>

text \<open>
  C5. For every list of \<open>n\<close> records and the \<open>k\<close> configured endpoints,
  \<open>distribute_accounts_across_apis\<close> returns one entry per endpoint, in the configured
  order and named \<open>API_1\<close>, \<open>API_2\<close>, ...; the shard sizes sum to \<open>n\<close>; the first
  \<open>n mod k\<close> endpoints receive \<open>n div k + 1\<close> records and the others \<open>n div k\<close>; the
  largest shard has at most one record more than the smallest; and the shards, put one
  after the other in endpoint order, are the original list (so every shard is a
  contiguous run of it, in load order). The result is a function of the input.
\<close>

theorem distribute_accounts_across_apis_partition:
  "(let n = length accounts;
        k = length API_URLS;
        d = distribute_accounts_across_apis accounts;
        sizes = map (length \<circ> shard) d
    in length d = k
     \<and> map fst d = API_URLS
     \<and> map (fst \<circ> snd) d = map (\<lambda>i. ''API_'' @ str_nat (i + 1)) [0..<k]
     \<and> sum_list sizes = n
     \<and> sizes = map (\<lambda>i. n div k + (if i < n mod k then 1 else 0)) [0..<k]
     \<and> Max (set sizes) \<le> Min (set sizes) + 1
     \<and> concat (map shard d) = accounts)"
proof -
  let ?d = "distribute_accounts_across_apis accounts"
  let ?n = "length accounts" and ?k = "length API_URLS"
  have k: "0 < ?k" by (simp add: API_URLS_def)
  have len: "length ?d = ?k"
    by (simp add: distribute_accounts_across_apis_def Let_def distribute_loop_length)
  have urls: "map fst ?d = API_URLS"
    by (simp add: distribute_accounts_across_apis_def Let_def distribute_loop_urls)
  have "map (\<lambda>(i, u::string). ''API_'' @ str_nat (i + 1)) (enumerate 0 API_URLS) =
        map (\<lambda>i. ''API_'' @ str_nat (i + 1)) (map fst (enumerate 0 API_URLS))"
    unfolding map_map by (rule map_cong) auto
  then have names: "map (fst \<circ> snd) ?d = map (\<lambda>i. ''API_'' @ str_nat (i + 1)) [0..<?k]"
    by (simp add: distribute_accounts_across_apis_def Let_def distribute_loop_names)
  have sizes: "map (length \<circ> shard) ?d =
      map (\<lambda>i. ?n div ?k + (if i < ?n mod ?k then 1 else 0)) [0..<?k]"
    by (rule distribute_sizes)
  have cat: "concat (map shard ?d) = accounts"
    by (rule distribute_concat)
  have "sum_list (map (length \<circ> shard) ?d) = length (concat (map shard ?d))"
    by (simp add: length_concat comp_def)
  then have total: "sum_list (map (length \<circ> shard) ?d) = ?n"
    by (simp only: cat)
  have spread: "Max (set (map (length \<circ> shard) ?d)) \<le> Min (set (map (length \<circ> shard) ?d)) + 1"
    unfolding sizes by (rule sizes_spread [OF k])
  show ?thesis
    unfolding Let_def using len urls names total sizes spread cat by (intro conjI)
qed

section \<open>Double-precision arithmetic: lemmas\<close>

lemma bit_length_bounds:
  "0 < n \<Longrightarrow> 2 ^ (bit_length n - 1) \<le> n \<and> n < 2 ^ bit_length n"
proof (induction n rule: bit_length.induct)
  case (1 n)
  show ?case
  proof (cases "n = 1")
    case True
    then show ?thesis by (simp add: bit_length.simps [of 1] bit_length.simps [of 0])
  next
    case False
    with "1.prems" have h: "0 < n div 2" by simp
    have pos: "\<not> n \<le> 0" using "1.prems" by simp
    from "1.IH" [OF pos h] have lo: "2 ^ (bit_length (n div 2) - 1) \<le> n div 2"
      and hi: "n div 2 < 2 ^ bit_length (n div 2)" by simp_all
    have bl: "bit_length n = Suc (bit_length (n div 2))"
      using pos by (simp add: bit_length.simps [of n])
    have gt: "0 < bit_length (n div 2)"
      using h by (simp add: bit_length.simps [of "n div 2"])
    then have pw: "(2::int) ^ bit_length (n div 2) = 2 * 2 ^ (bit_length (n div 2) - 1)"
      by (cases "bit_length (n div 2)") simp_all
    define P :: int where "P = 2 ^ (bit_length (n div 2) - 1)"
    have half: "2 * (n div 2) \<le> n" "n \<le> 2 * (n div 2) + 1" by linarith+
    from lo hi pw have "P \<le> n div 2" "n div 2 < 2 * P" by (simp_all add: P_def)
    with half have "2 * P \<le> n \<and> n < 2 * (2 * P)" by linarith
    moreover have "(2::int) ^ (bit_length n - 1) = 2 * P" "(2::int) ^ bit_length n = 2 * (2 * P)"
      unfolding bl P_def using pw by simp_all
    ultimately show ?thesis by simp
  qed
qed

lemma bit_length_pos: "0 < n \<Longrightarrow> 0 < bit_length n"
  by (simp add: bit_length.simps [of n])

lemma bit_length_nonpos: "n \<le> 0 \<Longrightarrow> bit_length n = 0"
  by (simp add: bit_length.simps [of n])

lemma bit_length_eq:
  assumes "2 ^ b \<le> n" and "n < 2 ^ Suc b"
  shows "bit_length n = Suc b"
proof -
  have pos: "0 < n" using assms(1) by (smt (verit) zero_less_power)
  note bb = bit_length_bounds [OF pos]
  have "\<not> bit_length n \<le> b"
  proof
    assume "bit_length n \<le> b"
    then have "(2::int) ^ bit_length n \<le> 2 ^ b" by (simp add: power_increasing)
    with bb assms(1) show False by simp
  qed
  moreover have "\<not> Suc (Suc b) \<le> bit_length n"
  proof
    assume "Suc (Suc b) \<le> bit_length n"
    then have "Suc b \<le> bit_length n - 1" by simp
    then have "(2::int) ^ Suc b \<le> 2 ^ (bit_length n - 1)" by (rule power_increasing) simp
    with bb assms(2) show False by simp
  qed
  ultimately show ?thesis by simp
qed

lemma round_div_between:
  assumes "0 < p"
  shows "m div p \<le> round_div m p" and "round_div m p \<le> m div p + 1"
  by (simp_all add: round_div_def Let_def)

lemma round_div_lo:
  assumes "0 < p" and "C * p \<le> m"
  shows "C \<le> round_div m p"
proof -
  have "(C * p) div p \<le> m div p"
    using assms(2) assms(1) by (rule zdiv_mono1)
  then have "C \<le> m div p"
    using assms(1) by simp
  with round_div_between(1) [OF assms(1), of m] show ?thesis by simp
qed

lemma round_div_hi_half:
  assumes "0 < p" and "2 * m < (2 * C + 1) * p"
  shows "round_div m p \<le> C"
proof -
  let ?q = "m div p" and ?r = "m mod p"
  have m: "m = ?q * p + ?r" by simp
  have r: "0 \<le> ?r" "?r < p" using assms(1) by simp_all
  have qC: "?q \<le> C"
  proof (rule ccontr)
    assume "\<not> ?q \<le> C"
    then have "C + 1 \<le> ?q" by simp
    then have "(C + 1) * p \<le> ?q * p" using assms(1) by (simp add: mult_right_mono)
    with m r have "(C + 1) * p \<le> m" by linarith
    then have "2 * ((C + 1) * p) \<le> 2 * m" by simp
    with assms show False by (simp add: algebra_simps)
  qed
  show ?thesis
  proof (cases "?q = C")
    case False
    with qC have "?q + 1 \<le> C" by simp
    with round_div_between(2) [OF assms(1), of m] show ?thesis by simp
  next
    case True
    from assms(2) have "2 * (?q * p + ?r) < (2 * C + 1) * p" by simp
    then have "2 * ?r < p" unfolding True by (simp add: algebra_simps)
    then show ?thesis using True by (simp add: round_div_def Let_def)
  qed
qed

lemma round_div_hi:
  assumes "0 < p" and "m \<le> C * p"
  shows "round_div m p \<le> C"
proof -
  have "2 * m < (2 * C + 1) * p"
    using assms by (simp add: algebra_simps)
  with assms(1) show ?thesis by (rule round_div_hi_half)
qed

lemma round_div_err:
  assumes "0 < p"
  shows "\<bar>2 * (round_div m p * p - m)\<bar> \<le> p"
proof -
  define q where "q = m div p"
  define r where "r = m mod p"
  have m: "m = q * p + r" by (simp add: q_def r_def)
  have r: "0 \<le> r" "r < p" using assms(1) by (simp_all add: r_def)
  have e1: "q * p - m = - r" unfolding m by simp
  have e2: "(q + 1) * p - m = p - r" unfolding m by (simp add: algebra_simps)
  have rd: "round_div m p =
      (if 2 * r < p then q else if 2 * r > p then q + 1 else if even q then q else q + 1)"
    by (simp add: round_div_def Let_def q_def r_def)
  consider (down) "round_div m p = q" "2 * r \<le> p" | (up) "round_div m p = q + 1" "p \<le> 2 * r"
    unfolding rd by (cases "2 * r < p"; cases "2 * r > p"; cases "even q") auto
  then show ?thesis
  proof cases
    case down
    then show ?thesis using r e1 by simp
  next
    case up
    then show ?thesis using r e2 by simp
  qed
qed


lemma dval_pair: "dval (m, e) = of_int m * 2 powi e"
  by (simp add: dval_def)

lemma two_powi_nat: "(2::real) ^ n * 2 powi e = 2 powi (int n + e)"
  by (simp add: power_int_add)

lemma round_double_cases:
  obtains (exact) "round_double x = x"
  | (rounded) d where "0 < d" and "bit_length \<bar>fst x\<bar> = 53 + d"
      and "round_double x = (round_div (fst x) (2 ^ d), snd x + int d)"
proof (cases "bit_length \<bar>fst x\<bar> \<le> 53")
  case True
  then have "round_double x = x" by (simp add: round_double_def Let_def)
  then show ?thesis by (rule exact)
next
  case False
  define d where "d = bit_length \<bar>fst x\<bar> - 53"
  from False have "0 < d" "bit_length \<bar>fst x\<bar> = 53 + d" by (simp_all add: d_def)
  moreover from False have "round_double x = (round_div (fst x) (2 ^ d), snd x + int d)"
    by (simp add: round_double_def Let_def d_def)
  ultimately show ?thesis by (rule rounded)
qed

lemma ulp_bound:
  assumes "bit_length \<bar>m\<bar> = 53 + d" and "\<bar>dval (m, e)\<bar> < 2 powi (G + 53)"
  shows "e + int d \<le> G"
proof (rule ccontr)
  assume "\<not> e + int d \<le> G"
  then have le: "G + 53 \<le> int (52 + d) + e" by simp
  have pos: "0 < \<bar>m\<bar>"
    using assms(1) bit_length_nonpos [of "\<bar>m\<bar>"] by (cases "\<bar>m\<bar> \<le> 0") simp_all
  from bit_length_bounds [OF pos] assms(1) have "2 ^ (52 + d) \<le> \<bar>m\<bar>" by simp
  then have "(2::real) ^ (52 + d) \<le> of_int \<bar>m\<bar>"
    by (metis of_int_le_iff of_int_numeral of_int_power)
  then have "(2::real) ^ (52 + d) * 2 powi e \<le> of_int \<bar>m\<bar> * 2 powi e"
    by (simp add: mult_right_mono)
  then have "2 powi (int (52 + d) + e) \<le> \<bar>dval (m, e)\<bar>"
    by (simp only: two_powi_nat dval_pair abs_mult of_int_abs) simp
  moreover have "(2::real) powi (G + 53) \<le> 2 powi (int (52 + d) + e)"
    using le by (rule power_int_increasing) simp
  ultimately show False using assms(2) by linarith
qed

lemma grid_point:
  assumes "e + int d \<le> G"
  shows "(of_int B :: real) * 2 powi G = of_int (B * 2 ^ nat (G - e - int d) * 2 ^ d) * 2 powi e"
proof -
  have "G = int (nat (G - e - int d)) + (int d + e)" using assms by simp
  then have "(2::real) powi G = 2 ^ nat (G - e - int d) * (2 ^ d * 2 powi e)"
    by (metis two_powi_nat)
  then show ?thesis by (simp add: mult.assoc)
qed

lemma dval_rounded:
  "dval (round_div m (2 ^ d), e + int d) = of_int (round_div m (2 ^ d) * 2 ^ d) * 2 powi e"
proof -
  have "(2::real) powi (e + int d) = 2 ^ d * 2 powi e"
    by (simp add: two_powi_nat add.commute)
  then show ?thesis by (simp add: dval_pair)
qed

lemma round_double_lo:
  assumes "\<bar>dval x\<bar> < 2 powi (G + 53)" and "real_of_int B * 2 powi G \<le> dval x"
  shows "real_of_int B * 2 powi G \<le> dval (round_double x)"
proof (rule round_double_cases [of x])
  assume "round_double x = x"
  with assms(2) show ?thesis by simp
next
  fix d
  assume d: "0 < d" "bit_length \<bar>fst x\<bar> = 53 + d"
    and r: "round_double x = (round_div (fst x) (2 ^ d), snd x + int d)"
  have x: "dval x = real_of_int (fst x) * 2 powi snd x" by (simp add: dval_def)
  from assms(1) have "\<bar>dval (fst x, snd x)\<bar> < 2 powi (G + 53)" by simp
  from ulp_bound [OF d(2) this] have u: "snd x + int d \<le> G" .
  let ?C = "B * 2 ^ nat (G - snd x - int d)"
  have pw: "(0::real) < 2 powi snd x" by simp
  from assms(2) have "real_of_int (?C * 2 ^ d) * 2 powi snd x \<le> real_of_int (fst x) * 2 powi snd x"
    unfolding grid_point [OF u] x .
  then have "(real_of_int (?C * 2 ^ d) :: real) \<le> real_of_int (fst x)"
    using pw by (simp only: mult_le_cancel_right_pos)
  then have "?C * 2 ^ d \<le> fst x" by (simp only: of_int_le_iff)
  then have "?C \<le> round_div (fst x) (2 ^ d)" by (intro round_div_lo) simp_all
  then have "?C * 2 ^ d \<le> round_div (fst x) (2 ^ d) * 2 ^ d" by (simp add: mult_right_mono)
  then have "(real_of_int (?C * 2 ^ d) :: real) \<le> real_of_int (round_div (fst x) (2 ^ d) * 2 ^ d)"
    by (simp only: of_int_le_iff)
  then have "real_of_int (?C * 2 ^ d) * 2 powi snd x \<le> real_of_int (round_div (fst x) (2 ^ d) * 2 ^ d) * 2 powi snd x"
    using pw by (simp only: mult_le_cancel_right_pos)
  then show ?thesis
    unfolding grid_point [OF u] r dval_rounded .
qed

lemma round_double_hi:
  assumes "\<bar>dval x\<bar> < 2 powi (G + 53)" and "dval x \<le> real_of_int B * 2 powi G"
  shows "dval (round_double x) \<le> real_of_int B * 2 powi G"
proof (rule round_double_cases [of x])
  assume "round_double x = x"
  with assms(2) show ?thesis by simp
next
  fix d
  assume d: "0 < d" "bit_length \<bar>fst x\<bar> = 53 + d"
    and r: "round_double x = (round_div (fst x) (2 ^ d), snd x + int d)"
  have x: "dval x = real_of_int (fst x) * 2 powi snd x" by (simp add: dval_def)
  from assms(1) have "\<bar>dval (fst x, snd x)\<bar> < 2 powi (G + 53)" by simp
  from ulp_bound [OF d(2) this] have u: "snd x + int d \<le> G" .
  let ?C = "B * 2 ^ nat (G - snd x - int d)"
  have pw: "(0::real) < 2 powi snd x" by simp
  from assms(2) have "real_of_int (fst x) * 2 powi snd x \<le> real_of_int (?C * 2 ^ d) * 2 powi snd x"
    unfolding grid_point [OF u] x .
  then have "(real_of_int (fst x) :: real) \<le> real_of_int (?C * 2 ^ d)"
    using pw by (simp only: mult_le_cancel_right_pos)
  then have "fst x \<le> ?C * 2 ^ d" by (simp only: of_int_le_iff)
  then have "round_div (fst x) (2 ^ d) \<le> ?C" by (intro round_div_hi) simp_all
  then have "round_div (fst x) (2 ^ d) * 2 ^ d \<le> ?C * 2 ^ d" by (simp add: mult_right_mono)
  then have "(real_of_int (round_div (fst x) (2 ^ d) * 2 ^ d) :: real) \<le> real_of_int (?C * 2 ^ d)"
    by (simp only: of_int_le_iff)
  then have "real_of_int (round_div (fst x) (2 ^ d) * 2 ^ d) * 2 powi snd x \<le> real_of_int (?C * 2 ^ d) * 2 powi snd x"
    using pw by (simp only: mult_le_cancel_right_pos)
  then show ?thesis
    unfolding grid_point [OF u] r dval_rounded .
qed

lemma round_double_err:
  assumes "\<bar>dval x\<bar> < 2 powi (G + 53)"
  shows "\<bar>dval (round_double x) - dval x\<bar> \<le> 2 powi (G - 1)"
proof (rule round_double_cases [of x])
  assume "round_double x = x"
  then show ?thesis by simp
next
  fix d
  assume d: "0 < d" "bit_length \<bar>fst x\<bar> = 53 + d"
    and r: "round_double x = (round_div (fst x) (2 ^ d), snd x + int d)"
  have x: "dval x = real_of_int (fst x) * 2 powi snd x" by (simp add: dval_def)
  from assms(1) have "\<bar>dval (fst x, snd x)\<bar> < 2 powi (G + 53)" by simp
  from ulp_bound [OF d(2) this] have u: "snd x + int d \<le> G" .
  let ?q = "round_div (fst x) (2 ^ d)"
  have pw: "(0::real) < 2 powi snd x" by simp
  have "\<bar>2 * (?q * 2 ^ d - fst x)\<bar> \<le> 2 ^ d" by (rule round_div_err) simp
  then have "real_of_int \<bar>2 * (?q * 2 ^ d - fst x)\<bar> \<le> real_of_int (2 ^ d)"
    by (simp only: of_int_le_iff)
  moreover have "real_of_int \<bar>2 * (?q * 2 ^ d - fst x)\<bar>
      = 2 * \<bar>real_of_int (?q * 2 ^ d) - real_of_int (fst x)\<bar>"
    by (simp only: of_int_abs of_int_mult of_int_diff of_int_numeral abs_mult abs_numeral)
  ultimately have e: "2 * \<bar>real_of_int (?q * 2 ^ d) - real_of_int (fst x)\<bar> \<le> 2 ^ d"
    by simp
  have "dval (round_double x) - dval x = (real_of_int (?q * 2 ^ d) - real_of_int (fst x)) * 2 powi snd x"
    unfolding r dval_rounded x by (simp add: algebra_simps)
  then have "2 * \<bar>dval (round_double x) - dval x\<bar> = (2 * \<bar>real_of_int (?q * 2 ^ d) - real_of_int (fst x) :: real\<bar>) * 2 powi snd x"
    by (simp add: abs_mult)
  also have "\<dots> \<le> 2 ^ d * 2 powi snd x"
    using e pw by (simp only: mult_le_cancel_right_pos)
  also have "\<dots> = 2 powi (int d + snd x)" by (rule two_powi_nat)
  also have "\<dots> \<le> 2 powi G" using u by (intro power_int_increasing) simp_all
  also have "\<dots> = 2 * 2 powi (G - 1)"
    by (simp add: power_int_diff)
  finally show ?thesis by simp
qed

lemma dval_add_exact:
  "dval (fst x * 2 ^ nat (snd x - min (snd x) (snd y)) + fst y * 2 ^ nat (snd y - min (snd x) (snd y)),
         min (snd x) (snd y)) = dval x + dval y"
proof -
  let ?e = "min (snd x) (snd y)"
  have a: "(2::real) ^ nat (snd x - ?e) * 2 powi ?e = 2 powi snd x"
    by (simp add: two_powi_nat)
  have b: "(2::real) ^ nat (snd y - ?e) * 2 powi ?e = 2 powi snd y"
    by (simp add: two_powi_nat)
  have "dval (fst x * 2 ^ nat (snd x - ?e) + fst y * 2 ^ nat (snd y - ?e), ?e)
      = of_int (fst x) * (2 ^ nat (snd x - ?e) * 2 powi ?e)
        + of_int (fst y) * (2 ^ nat (snd y - ?e) * 2 powi ?e)"
    by (simp add: dval_pair algebra_simps)
  then show ?thesis unfolding a b by (simp add: dval_def)
qed

lemma dval_mul_exact: "dval (fst x * fst y, snd x + snd y) = dval x * dval y"
  by (simp add: dval_def power_int_add)

lemma double_of_int_exact:
  assumes "\<bar>n\<bar> < 2 ^ 53"
  shows "double_of_int n = (n, 0)"
proof (cases "\<bar>n\<bar> \<le> 0")
  case True
  then show ?thesis by (simp add: double_of_int_def round_double_def Let_def bit_length_nonpos)
next
  case False
  then have pos: "0 < \<bar>n\<bar>" by simp
  have "bit_length \<bar>n\<bar> \<le> 53"
  proof (rule ccontr)
    assume "\<not> bit_length \<bar>n\<bar> \<le> 53"
    then have "53 \<le> bit_length \<bar>n\<bar> - 1" by simp
    then have "(2::int) ^ 53 \<le> 2 ^ (bit_length \<bar>n\<bar> - 1)" by (rule power_increasing) simp
    with bit_length_bounds [OF pos] assms show False by linarith
  qed
  then show ?thesis by (simp add: double_of_int_def round_double_def Let_def)
qed


lemma double_add_val:
  "double_add x y = round_double (fst x * 2 ^ nat (snd x - min (snd x) (snd y))
      + fst y * 2 ^ nat (snd y - min (snd x) (snd y)), min (snd x) (snd y))"
  by (simp add: double_add_def Let_def)

lemma double_add_lo:
  assumes "\<bar>dval x + dval y\<bar> < 2 powi (G + 53)" and "real_of_int B * 2 powi G \<le> dval x + dval y"
  shows "real_of_int B * 2 powi G \<le> dval (double_add x y)"
  unfolding double_add_val using assms
  by (intro round_double_lo) (simp_all only: dval_add_exact)

lemma double_add_hi:
  assumes "\<bar>dval x + dval y\<bar> < 2 powi (G + 53)" and "dval x + dval y \<le> real_of_int B * 2 powi G"
  shows "dval (double_add x y) \<le> real_of_int B * 2 powi G"
  unfolding double_add_val using assms
  by (intro round_double_hi) (simp_all only: dval_add_exact)

lemma double_add_err:
  assumes "\<bar>dval x + dval y\<bar> < 2 powi (G + 53)"
  shows "\<bar>dval (double_add x y) - (dval x + dval y)\<bar> \<le> 2 powi (G - 1)"
  using round_double_err [of "(fst x * 2 ^ nat (snd x - min (snd x) (snd y))
      + fst y * 2 ^ nat (snd y - min (snd x) (snd y)), min (snd x) (snd y))" G] assms
  unfolding double_add_val dval_add_exact by simp

lemma scaled_draw:
  assumes "0 \<le> k" and "k < 2 ^ 53"
  shows "0 \<le> dval (double_mul (double_of_int 5) (random_double k))"
    and "dval (double_mul (double_of_int 5) (random_double k)) \<le> real_of_int (5 * 2 ^ 50 - 1) * 2 powi (- 50)"
    and "\<bar>dval (double_mul (double_of_int 5) (random_double k)) - 5 * real_of_int k / 2 ^ 53\<bar>
           \<le> 2 powi (- 51)"
proof -
  let ?x = "(5 * k, - 53) :: int \<times> int"
  have five: "double_of_int 5 = (5, 0)" by (rule double_of_int_exact) simp
  have t: "double_mul (double_of_int 5) (random_double k) = round_double ?x"
    by (simp add: five double_mul_def random_double_def)
  have v: "dval ?x = 5 * real_of_int k / 2 ^ 53"
    by (simp add: dval_def power_int_minus field_simps)
  have k: "0 \<le> real_of_int k" "real_of_int k < 2 ^ 53"
    using assms by (simp_all add: of_int_less_numeral_power_cancel_iff)
  have small: "\<bar>dval ?x\<bar> < 2 powi (- 50 + 53)"
    unfolding v using k by simp
  from round_double_lo [OF small, of 0] k(1) show "0 \<le> dval (double_mul (double_of_int 5) (random_double k))"
    unfolding t v by simp
  from round_double_err [OF small] show "\<bar>dval (double_mul (double_of_int 5) (random_double k)) - 5 * real_of_int k / 2 ^ 53\<bar>
           \<le> 2 powi (- 51)"
    unfolding t v by simp
  show "dval (double_mul (double_of_int 5) (random_double k)) \<le> real_of_int (5 * 2 ^ 50 - 1) * 2 powi (- 50)"
  proof (cases "5 * k < 2 ^ 55")
    case True
    then have "real_of_int (5 * k) < 2 ^ 55"
      by (simp only: of_int_less_numeral_power_cancel_iff)
    then have lt: "\<bar>dval ?x\<bar> < 2 powi (- 51 + 53)"
      unfolding v using k by simp
    have "dval ?x \<le> real_of_int (2 ^ 53) * 2 powi (- 51)"
      using lt k by (simp add: v)
    from round_double_hi [OF lt this] show ?thesis
      unfolding t by simp
  next
    case False
    then have lo: "2 ^ 55 \<le> 5 * k" by simp
    have hi: "5 * k < 2 ^ Suc 55" using assms(2) by simp
    from bit_length_eq [OF lo hi] have bl: "bit_length \<bar>fst ?x\<bar> = 56"
      using assms(1) by simp
    then have r: "round_double ?x = (round_div (5 * k) (2 ^ 3), - 50)"
      by (simp add: round_double_def Let_def)
    have "round_div (5 * k) (2 ^ 3) \<le> 5 * 2 ^ 50 - 1"
      using assms(2) by (intro round_div_hi_half) simp_all
    then have "real_of_int (round_div (5 * k) (2 ^ 3)) \<le> real_of_int (5 * 2 ^ 50 - 1)"
      by (simp only: of_int_le_iff)
    then have "real_of_int (round_div (5 * k) (2 ^ 3)) * 2 powi (- 50)
        \<le> real_of_int (5 * 2 ^ 50 - 1) * 2 powi (- 50)"
      by (rule mult_right_mono) simp
    then show ?thesis
      unfolding t r dval_pair .
  qed
qed

lemma uniform_0_5:
  assumes "0 \<le> k" and "k < 2 ^ 53"
  shows "0 \<le> dval (uniform 0 5 k)"
    and "dval (uniform 0 5 k) \<le> real_of_int (5 * 2 ^ 50 - 1) * 2 powi (- 50)"
    and "\<bar>dval (uniform 0 5 k) - 5 * real_of_int k / 2 ^ 53\<bar> \<le> 2 powi (- 50)"
proof -
  let ?t = "double_mul (double_of_int 5) (random_double k)"
  note t = scaled_draw [OF assms]
  have zero: "double_of_int 0 = (0, 0)" by (rule double_of_int_exact) simp
  have u: "uniform 0 5 k = double_add (0, 0) ?t"
    by (simp add: uniform_def zero)
  have z: "dval (0, 0) = 0" by (simp add: dval_def)
  have top: "real_of_int (5 * 2 ^ 50 - 1) * 2 powi (- 50) < 8" by simp
  have small: "\<bar>dval (0, 0) + dval ?t\<bar> < 2 powi (- 50 + 53)"
    unfolding z using t(1) t(2) top by simp
  from double_add_lo [OF small, of 0] t(1) show "0 \<le> dval (uniform 0 5 k)"
    unfolding u z by simp
  from double_add_hi [OF small, of "5 * 2 ^ 50 - 1"] t(2)
  show "dval (uniform 0 5 k) \<le> real_of_int (5 * 2 ^ 50 - 1) * 2 powi (- 50)"
    unfolding u z by simp
  from double_add_err [OF small] have "\<bar>dval (uniform 0 5 k) - dval ?t\<bar> \<le> 2 powi (- 51)"
    unfolding u z by simp
  with t(3) have "\<bar>dval (uniform 0 5 k) - 5 * real_of_int k / 2 ^ 53\<bar> \<le> 2 powi (- 51) + 2 powi (- 51)"
    by linarith
  then show "\<bar>dval (uniform 0 5 k) - 5 * real_of_int k / 2 ^ 53\<bar> \<le> 2 powi (- 50)"
    by simp
qed

lemma base_delay_range:
  "5 \<le> min (INITIAL_DELAY * 2 ^ n) MAX_DELAY \<and> min (INITIAL_DELAY * 2 ^ n) MAX_DELAY \<le> 120"
proof -
  have "(1::int) \<le> 2 ^ n" by simp
  then have "(5::int) \<le> 5 * 2 ^ n" by linarith
  then show ?thesis by (simp add: INITIAL_DELAY_def MAX_DELAY_def)
qed

lemma delay_sum:
  assumes "0 \<le> k" and "k < 2 ^ 53" and "5 \<le> b" and "b \<le> 120"
  shows "real_of_int b \<le> dval (double_add (double_of_int b) (uniform 0 5 k))"
    and "dval (double_add (double_of_int b) (uniform 0 5 k)) \<le> real_of_int b + 5"
    and "\<bar>dval (double_add (double_of_int b) (uniform 0 5 k)) - (real_of_int b + 5 * real_of_int k / 2 ^ 53)\<bar>
           \<le> 1 / 2 ^ 46"
proof -
  let ?j = "uniform 0 5 k"
  note j = uniform_0_5 [OF assms(1) assms(2)]
  have top: "real_of_int (5 * 2 ^ 50 - 1) * 2 powi (- 50) < 5" by simp
  have b: "double_of_int b = (b, 0)" using assms(3) assms(4) by (intro double_of_int_exact) simp
  have vb: "dval (b, 0) = real_of_int b" by (simp add: dval_def)
  have rb: "5 \<le> real_of_int b" "real_of_int b \<le> 120" using assms(3) assms(4) by simp_all
  have small: "\<bar>dval (b, 0) + dval ?j\<bar> < 2 powi (- 46 + 53)"
    unfolding vb using j(1) j(2) top rb by simp
  have g1: "real_of_int (b * 2 ^ 46) * 2 powi (- 46) = real_of_int b" by simp
  have g2: "real_of_int ((b + 5) * 2 ^ 46) * 2 powi (- 46) = real_of_int b + 5" by simp
  have "real_of_int (b * 2 ^ 46) * 2 powi (- 46) \<le> dval (b, 0) + dval ?j"
    unfolding g1 vb using j(1) by simp
  from double_add_lo [OF small this]
  show "real_of_int b \<le> dval (double_add (double_of_int b) ?j)"
    unfolding g1 b .
  have "dval (b, 0) + dval ?j \<le> real_of_int ((b + 5) * 2 ^ 46) * 2 powi (- 46)"
    unfolding g2 vb using j(2) top by simp
  from double_add_hi [OF small this]
  show "dval (double_add (double_of_int b) ?j) \<le> real_of_int b + 5"
    unfolding g2 b .
  from double_add_err [OF small]
  have "\<bar>dval (double_add (double_of_int b) ?j) - (real_of_int b + dval ?j)\<bar> \<le> 2 powi (- 47)"
    unfolding b vb by simp
  with j(3) have "\<bar>dval (double_add (double_of_int b) ?j) - (real_of_int b + 5 * real_of_int k / 2 ^ 53)\<bar>
      \<le> 2 powi (- 47) + 2 powi (- 50)"
    by linarith
  moreover have "(2::real) powi (- 47) + 2 powi (- 50) \<le> 1 / 2 ^ 46" by simp
  ultimately show "\<bar>dval (double_add (double_of_int b) ?j) - (real_of_int b + 5 * real_of_int k / 2 ^ 53)\<bar>
           \<le> 1 / 2 ^ 46"
    by linarith
qed

section \<open>Backoff: the claim\<close>

text \<open>
  C6 as stated fails. For the largest draw of \<open>random()\<close>, \<open>k = 2^53 - 1\<close>, the jitter is
  \<open>5 - 2^-50\<close>, and its sum with the base rounds to the base plus 5: before attempt 1
  \<open>fetch_token\<close> sleeps exactly 10 seconds, which is not below \<open>min (5 * 2^0) 120 + 5\<close>,
  and before attempt 14 \<open>push_to_github\<close> sleeps exactly 125 seconds.
\<close>

theorem backoff_delay_half_open_counterexample:
  "(2::int) ^ 53 - 1 < 2 ^ 53
   \<and> dval (fetch_token_delay 1 (2 ^ 53 - 1)) = real_of_int (min (5 * 2 ^ (1 - 1)) 120) + 5
   \<and> \<not> dval (fetch_token_delay 1 (2 ^ 53 - 1)) < real_of_int (min (5 * 2 ^ (1 - 1)) 120) + 5
   \<and> dval (push_to_github_delay 14 (2 ^ 53 - 1)) = 125"
  by code_simp

text \<open>
  C6, amended. For every draw \<open>u\<close> of \<open>random()\<close> (\<open>u / 2^53\<close> with \<open>0 \<le> u < 2^53\<close>), no time
  is slept before attempt 0; the jitter \<open>random.uniform(0, 5)\<close> lies in \<open>[0, 5)\<close>; and
  before every attempt \<open>k \<ge> 1\<close> the time slept lies in the closed interval
  \<open>[min (5 * 2^(k-1)) 120, min (5 * 2^(k-1)) 120 + 5]\<close> and differs from the capped
  exponential base plus \<open>5 * u / 2^53\<close> by at most \<open>2^-46\<close>, the rounding of the doubles. The
  loop of \<open>push_to_github\<close> sleeps the same time as the loop of \<open>fetch_token\<close>.
\<close>

theorem backoff_delay_bounds:
  assumes "0 \<le> u" and "u < 2 ^ 53"
  shows "dval (fetch_token_delay 0 u) = 0 \<and> dval (push_to_github_delay 0 u) = 0
    \<and> 0 \<le> dval (uniform 0 5 u) \<and> dval (uniform 0 5 u) < 5
    \<and> (\<forall>k\<ge>1. real_of_int (min (5 * 2 ^ (k - 1)) 120) \<le> dval (fetch_token_delay k u)
         \<and> dval (fetch_token_delay k u) \<le> real_of_int (min (5 * 2 ^ (k - 1)) 120) + 5
         \<and> \<bar>dval (fetch_token_delay k u)
              - (real_of_int (min (5 * 2 ^ (k - 1)) 120) + 5 * real_of_int u / 2 ^ 53)\<bar> \<le> 1 / 2 ^ 46
         \<and> push_to_github_delay k u = fetch_token_delay k u)"
proof -
  have zero: "dval (fetch_token_delay 0 u) = 0 \<and> dval (push_to_github_delay 0 u) = 0"
    by (simp add: fetch_token_delay_def push_to_github_delay_def dval_def)
  have top: "real_of_int (5 * 2 ^ 50 - 1) * 2 powi (- 50) < 5" by simp
  from uniform_0_5 [OF assms] top have jitter: "0 \<le> dval (uniform 0 5 u) \<and> dval (uniform 0 5 u) < 5"
    by simp
  have pos: "real_of_int (min (5 * 2 ^ (k - 1)) 120) \<le> dval (fetch_token_delay k u)
         \<and> dval (fetch_token_delay k u) \<le> real_of_int (min (5 * 2 ^ (k - 1)) 120) + 5
         \<and> \<bar>dval (fetch_token_delay k u)
              - (real_of_int (min (5 * 2 ^ (k - 1)) 120) + 5 * real_of_int u / 2 ^ 53)\<bar> \<le> 1 / 2 ^ 46
         \<and> push_to_github_delay k u = fetch_token_delay k u" if "1 \<le> k" for k
  proof -
    let ?b = "min (INITIAL_DELAY * 2 ^ (k - 1)) MAX_DELAY"
    from base_delay_range [of "k - 1"] have r: "5 \<le> ?b" "?b \<le> 120" by simp_all
    have b: "?b = min (5 * 2 ^ (k - 1)) 120" by (simp add: INITIAL_DELAY_def MAX_DELAY_def)
    have f: "fetch_token_delay k u = double_add (double_of_int ?b) (uniform 0 5 u)"
      using that by (simp add: fetch_token_delay_def Let_def)
    have p: "push_to_github_delay k u = double_add (double_of_int ?b) (uniform 0 5 u)"
      using that by (simp add: push_to_github_delay_def)
    from delay_sum [OF assms r] show ?thesis
      unfolding f p b by simp
  qed
  from zero jitter pos show ?thesis by blast
qed

theorem backoff_delay_bounds_witness:
  "(0::int) \<le> 2 ^ 52 \<and> (2::int) ^ 52 < 2 ^ 53
   \<and> dval (fetch_token_delay 0 (2 ^ 52)) = 0
   \<and> 0 \<le> dval (uniform 0 5 (2 ^ 52)) \<and> dval (uniform 0 5 (2 ^ 52)) < 5
   \<and> 20 \<le> dval (fetch_token_delay 3 (2 ^ 52)) \<and> dval (fetch_token_delay 3 (2 ^ 52)) \<le> 25
   \<and> \<bar>dval (fetch_token_delay 3 (2 ^ 52)) - 45 / 2\<bar> \<le> 1 / 2 ^ 46
   \<and> push_to_github_delay 14 (2 ^ 52) = fetch_token_delay 14 (2 ^ 52)
   \<and> 120 \<le> dval (push_to_github_delay 14 (2 ^ 52)) \<and> dval (push_to_github_delay 14 (2 ^ 52)) \<le> 125"
proof -
  have a: "(0::int) \<le> 2 ^ 52" and b: "(2::int) ^ 52 < 2 ^ 53" by simp_all
  note h = backoff_delay_bounds [OF a b]
  from h have zero: "dval (fetch_token_delay 0 (2 ^ 52)) = 0" by blast
  from h have jitter: "0 \<le> dval (uniform 0 5 (2 ^ 52)) \<and> dval (uniform 0 5 (2 ^ 52)) < 5" by blast
  from h have all: "\<forall>k\<ge>1. real_of_int (min (5 * 2 ^ (k - 1)) 120) \<le> dval (fetch_token_delay k (2 ^ 52))
         \<and> dval (fetch_token_delay k (2 ^ 52)) \<le> real_of_int (min (5 * 2 ^ (k - 1)) 120) + 5
         \<and> \<bar>dval (fetch_token_delay k (2 ^ 52))
              - (real_of_int (min (5 * 2 ^ (k - 1)) 120) + 5 * real_of_int (2 ^ 52) / 2 ^ 53)\<bar> \<le> 1 / 2 ^ 46
         \<and> push_to_github_delay k (2 ^ 52) = fetch_token_delay k (2 ^ 52)"
    by blast
  from all [rule_format, of 3] have three:
    "20 \<le> dval (fetch_token_delay 3 (2 ^ 52)) \<and> dval (fetch_token_delay 3 (2 ^ 52)) \<le> 25
     \<and> \<bar>dval (fetch_token_delay 3 (2 ^ 52)) - 45 / 2\<bar> \<le> 1 / 2 ^ 46"
    by simp
  from all [rule_format, of 14] have last:
    "push_to_github_delay 14 (2 ^ 52) = fetch_token_delay 14 (2 ^ 52)
     \<and> 120 \<le> dval (push_to_github_delay 14 (2 ^ 52)) \<and> dval (push_to_github_delay 14 (2 ^ 52)) \<le> 125"
    by simp
  from a b zero jitter three last show ?thesis by blast
qed

section \<open>Rate-limit coordinator: the claims\<close>

lemma handle_rate_limit_signaled:
  "first_error_occurred m \<Longrightarrow> handle_rate_limit_all m us = (replicate (length us) False, m)"
  by (induction us) (auto simp: handle_rate_limit_def)

lemma handle_rate_limit_open:
  "\<not> first_error_occurred m \<Longrightarrow>
   fst (handle_rate_limit_all m (u # us)) = True # replicate (length us) False"
  by (simp add: handle_rate_limit_def handle_rate_limit_signaled)

text \<open>
  C1. In every run of calls of \<open>handle_rate_limit\<close> on a coordinator that is new or
  was just reset, the first call (the one that finds no error recorded) answers
  \<open>True\<close> and every other call answers \<open>False\<close>, so exactly one call answers \<open>True\<close>;
  and after \<open>reset\<close>, whatever the state was, the next call answers \<open>True\<close> again.
\<close>

theorem handle_rate_limit_single_first:
  "fst (handle_rate_limit_all RateLimitManager_init (u # us)) = True # replicate (length us) False
   \<and> length (filter id (fst (handle_rate_limit_all RateLimitManager_init (u # us)))) = 1
   \<and> fst (handle_rate_limit_all (reset m) (u # us)) = True # replicate (length us) False
   \<and> length (filter id (fst (handle_rate_limit_all (reset m) (u # us)))) = 1
   \<and> fst (handle_rate_limit (reset (snd (handle_rate_limit_all m us))) u) = True"
proof -
  have i: "\<not> first_error_occurred RateLimitManager_init"
    by (simp add: RateLimitManager_init_def)
  have r: "\<not> first_error_occurred (reset m')" for m'
    by (simp add: reset_def)
  have one: "length (filter id (True # replicate n False)) = 1" for n
    by (induction n) simp_all
  have last: "fst (handle_rate_limit (reset (snd (handle_rate_limit_all m us))) u) = True"
    using r by (simp add: handle_rate_limit_def)
  show ?thesis
    using handle_rate_limit_open [of RateLimitManager_init u us]
      handle_rate_limit_open [of "reset m" u us] i r [of m] one [of "length us"] last
    by simp
qed

text \<open>
  C2 as stated fails: after the first caller's pause broadcast the coordinator still
  records the error, and the next call of the same region answers \<open>False\<close>.
\<close>

theorem pause_broadcast_reopens_counterexample:
  "\<not> fst (handle_rate_limit
         (fst (pause_broadcast (snd (handle_rate_limit RateLimitManager_init ''1001''), False)))
         ''1002'')"
  by (simp add: handle_rate_limit_def pause_broadcast_def RateLimitManager_init_def)

text \<open>
  C2, amended. After the caller that got \<open>True\<close> finishes its pause broadcast, the pause
  signal is clear and \<open>pause_in_progress\<close> is false, but \<open>first_error_occurred\<close> stays
  set: every later call of \<open>handle_rate_limit\<close> answers \<open>False\<close> and leaves the
  coordinator as it is, until \<open>reset\<close>, after which the next call answers \<open>True\<close>.
\<close>

theorem pause_broadcast_keeps_first_error:
  assumes "handle_rate_limit m u = (True, m')"
    and "pause_broadcast (m', pause_event) = (m'', pause_event')"
  shows "\<not> pause_event' \<and> \<not> pause_in_progress m'' \<and> first_error_occurred m''
    \<and> handle_rate_limit_all m'' us = (replicate (length us) False, m'')
    \<and> fst (handle_rate_limit (reset m'') u') = True"
proof -
  from assms(1) have "first_error_occurred m'"
    by (auto simp: handle_rate_limit_def split: if_splits)
  with assms(2) have s: "\<not> pause_event'" "\<not> pause_in_progress m''" "first_error_occurred m''"
    by (auto simp: pause_broadcast_def)
  from s(3) have "handle_rate_limit_all m'' us = (replicate (length us) False, m'')"
    by (rule handle_rate_limit_signaled)
  moreover have "fst (handle_rate_limit (reset m'') u') = True"
    by (simp add: handle_rate_limit_def reset_def)
  ultimately show ?thesis using s by simp
qed

theorem pause_broadcast_keeps_first_error_witness:
  "handle_rate_limit RateLimitManager_init ''1001''
     = (True, \<lparr>first_error_occurred = True, pause_in_progress = True\<rparr>)
   \<and> pause_broadcast (\<lparr>first_error_occurred = True, pause_in_progress = True\<rparr>, False)
     = (\<lparr>first_error_occurred = True, pause_in_progress = False\<rparr>, False)
   \<and> handle_rate_limit_all \<lparr>first_error_occurred = True, pause_in_progress = False\<rparr>
       [''1002'', ''1003'']
     = ([False, False], \<lparr>first_error_occurred = True, pause_in_progress = False\<rparr>)
   \<and> fst (handle_rate_limit (reset \<lparr>first_error_occurred = True, pause_in_progress = False\<rparr>)
       ''1004'') = True"
proof -
  have a: "handle_rate_limit RateLimitManager_init ''1001''
     = (True, \<lparr>first_error_occurred = True, pause_in_progress = True\<rparr>)"
    by (simp add: handle_rate_limit_def RateLimitManager_init_def)
  have b: "pause_broadcast (\<lparr>first_error_occurred = True, pause_in_progress = True\<rparr>, False)
     = (\<lparr>first_error_occurred = True, pause_in_progress = False\<rparr>, False)"
    by (simp add: pause_broadcast_def)
  from pause_broadcast_keeps_first_error [OF a b, of "[''1002'', ''1003'']" "''1004''"] a b
  show ?thesis by simp
qed

section \<open>Accounting of one fetch: lemmas\<close>

lemma attempt_body_counters:
  assumes "success st = Some s" and "completed st = Some c"
    and "attempt_body resp u api_name st pe = (r, st', pe')"
  shows "failed st' = failed st \<and> timed_out st' = timed_out st \<and> total st' = total st
    \<and> (case r of
          Some t \<Rightarrow> success st' = Some (s + 1) \<and> completed st' = Some (c + 1)
        | None \<Rightarrow> success st' = Some s \<and> completed st' = Some c \<and> api_usage st' = api_usage st)"
  using assms
  by (auto simp: attempt_body_def on_rate_limit_def incr_success_def incr_completed_def
        count_api_usage_def Let_def
      split: response.splits option.splits if_splits prod.splits sum.splits)

lemma fetch_token_loop_counters:
  assumes "success st = Some s" and "completed st = Some c"
    and "fetch_token_loop net u api_name as st pe = (ex, st', pe')"
  shows "failed st' = failed st \<and> timed_out st' = timed_out st \<and> total st' = total st
    \<and> (case ex of
          ReturnToken t \<Rightarrow> success st' = Some (s + 1) \<and> completed st' = Some (c + 1)
        | LoopDone \<Rightarrow> success st' = Some s \<and> completed st' = Some c \<and> api_usage st' = api_usage st
        | TaskCancelled \<Rightarrow> success st' = Some s \<and> completed st' = Some c \<and> api_usage st' = api_usage st)"
  using assms
proof (induction as arbitrary: st pe)
  case Nil
  then show ?case by auto
next
  case (Cons a as)
  show ?case
  proof (cases "net a")
    case ItemTimeout
    with Cons.prems show ?thesis by auto
  next
    case (Response resp)
    obtain r st1 pe1 where body: "attempt_body resp u api_name st pe = (r, st1, pe1)"
      by (cases "attempt_body resp u api_name st pe") auto
    note b = attempt_body_counters [OF Cons.prems(1) Cons.prems(2) body]
    show ?thesis
    proof (cases r)
      case (Some t)
      with Cons.prems(3) Response body b show ?thesis by auto
    next
      case None
      show ?thesis
      proof (cases "a = MAX_RETRIES - 1")
        case True
        with Cons.prems(3) Response body b None show ?thesis by auto
      next
        case False
        with Cons.prems(3) Response body None
        have rec: "fetch_token_loop net u api_name as st1 pe1 = (ex, st', pe')" by simp
        from b None have s1: "success st1 = Some s" and c1: "completed st1 = Some c" by auto
        from Cons.IH [OF s1 c1 rec] b None show ?thesis by (auto split: loop_exit.splits)
      qed
    qed
  qed
qed

lemma fetch_token_with_timeout_accounting:
  assumes "success st = Some s" and "failed st = Some f" and "completed st = Some c"
  shows "\<exists>r st' pe'. fetch_token_with_timeout net u api_name st pe = (Inr r, st', pe')
    \<and> completed st' = Some (c + 1) \<and> total st' = total st
    \<and> (case r of
          Some t \<Rightarrow> success st' = Some (s + 1) \<and> failed st' = Some f \<and> timed_out st' = timed_out st
        | None \<Rightarrow> success st' = Some s \<and> failed st' = Some (f + 1) \<and> api_usage st' = api_usage st)"
proof -
  obtain ex st1 pe1 where loop: "fetch_token_loop net u api_name [0..<MAX_RETRIES] st pe = (ex, st1, pe1)"
    by (cases "fetch_token_loop net u api_name [0..<MAX_RETRIES] st pe") auto
  note l = fetch_token_loop_counters [OF assms(1) assms(3) loop]
  show ?thesis
  proof (cases ex)
    case (ReturnToken t)
    with loop l assms show ?thesis
      by (simp add: fetch_token_with_timeout_def fetch_token_def)
  next
    case LoopDone
    with loop l assms show ?thesis
      by (simp add: fetch_token_with_timeout_def fetch_token_def incr_failed_def incr_completed_def)
  next
    case TaskCancelled
    with loop l assms show ?thesis
      by (simp add: fetch_token_with_timeout_def fetch_token_def incr_failed_def incr_completed_def)
  qed
qed

section \<open>Accounting of a batch: lemmas\<close>

lemma attempt_body_no_token:
  "\<not> has_token resp \<Longrightarrow> fst (attempt_body resp u api_name st pe) = None"
  by (auto simp: attempt_body_def has_token_def Let_def
      split: response.splits option.splits prod.splits)

lemma fetch_token_loop_cancelled:
  assumes "net k = ItemTimeout"
    and "\<forall>j\<in>set pre. (\<exists>resp. net j = Response resp \<and> \<not> has_token resp) \<and> j \<noteq> MAX_RETRIES - 1"
  shows "fst (fetch_token_loop net u api_name (pre @ k # post) st pe) = TaskCancelled"
  using assms(2)
proof (induction pre arbitrary: st pe)
  case Nil
  then show ?case using assms(1) by simp
next
  case (Cons j pre)
  then obtain resp where r: "net j = Response resp" "\<not> has_token resp" and j: "j \<noteq> MAX_RETRIES - 1"
    by auto
  obtain st1 pe1 where body: "attempt_body resp u api_name st pe = (None, st1, pe1)"
    using attempt_body_no_token [OF r(2), of u api_name st pe]
    by (cases "attempt_body resp u api_name st pe") auto
  from Cons have "fst (fetch_token_loop net u api_name (pre @ k # post) st1 pe1) = TaskCancelled"
    by simp
  with r j body show ?case by simp
qed

lemma upt_split: "k < n \<Longrightarrow> [0..<n] = [0..<k] @ k # [Suc k..<n]"
  by (metis le0 upt_add_eq_append upt_conv_Cons less_imp_add_positive add.commute
      le_add_diff_inverse less_or_eq_imp_le)

lemma accounted_Nil:
  "success st = Some s \<Longrightarrow> failed st = Some f \<Longrightarrow> completed st = Some c \<Longrightarrow> accounted st st []"
  by (simp add: accounted_def)

lemma accounted_trans:
  "accounted st st1 rs1 \<Longrightarrow> accounted st1 st2 rs2 \<Longrightarrow> accounted st st2 (rs1 @ rs2)"
  by (auto simp: accounted_def)

lemma accounted_present:
  "accounted st st' rs \<Longrightarrow> \<exists>s f c. success st' = Some s \<and> failed st' = Some f \<and> completed st' = Some c"
  by (auto simp: accounted_def)

lemma fetch_token_with_timeout_accounted:
  assumes "success st = Some s" and "failed st = Some f" and "completed st = Some c"
  shows "\<exists>r st' pe'. fetch_token_with_timeout net u api_name st pe = (Inr r, st', pe')
    \<and> accounted st st' [r]"
proof -
  from fetch_token_with_timeout_accounting [OF assms, of net u api_name pe]
  obtain r st' pe' where call: "fetch_token_with_timeout net u api_name st pe = (Inr r, st', pe')"
    and c: "completed st' = Some (c + 1)" "total st' = total st"
    and r: "case r of
          Some t \<Rightarrow> success st' = Some (s + 1) \<and> failed st' = Some f \<and> timed_out st' = timed_out st
        | None \<Rightarrow> success st' = Some s \<and> failed st' = Some (f + 1) \<and> api_usage st' = api_usage st"
    by blast
  from assms c r have "accounted st st' [r]"
    by (cases r) (auto simp: accounted_def)
  with call show ?thesis by blast
qed

lemma gather_batch_accounted:
  assumes "success st = Some s" and "failed st = Some f" and "completed st = Some c"
  shows "\<exists>rs st' pe'. gather_batch net api_name idx batch st pe = (Inr rs, st', pe')
    \<and> accounted st st' rs \<and> length rs = length batch"
  using assms
proof (induction batch arbitrary: idx st pe s f c)
  case Nil
  then show ?case by (simp add: accounted_Nil)
next
  case (Cons acc batch)
  from fetch_token_with_timeout_accounted [OF Cons.prems, of "net idx" "uid acc" api_name pe]
  obtain r st1 pe1 where
    call: "fetch_token_with_timeout (net idx) (uid acc) api_name st pe = (Inr r, st1, pe1)"
    and a1: "accounted st st1 [r]"
    by blast
  from accounted_present [OF a1] obtain s1 f1 c1 where
    p1: "success st1 = Some s1" "failed st1 = Some f1" "completed st1 = Some c1"
    by blast
  from Cons.IH [OF p1, of "idx + 1" pe1] obtain rs st2 pe2 where
    rest: "gather_batch net api_name (idx + 1) batch st1 pe1 = (Inr rs, st2, pe2)"
    and a2: "accounted st1 st2 rs" and len: "length rs = length batch"
    by blast
  from accounted_trans [OF a1 a2] have "accounted st st2 (r # rs)" by simp
  with call rest len show ?case by simp
qed

lemma process_batches_accounted:
  assumes "success st = Some s" and "failed st = Some f" and "completed st = Some c"
  shows "\<exists>rs st' pe'. process_batches net api_name accounts batch_idx st pe = (Inr rs, st', pe')
    \<and> accounted st st' rs \<and> length rs = length accounts - batch_idx"
  using assms
proof (induction net api_name accounts batch_idx st pe arbitrary: s f c rule: process_batches.induct)
  case (1 net api_name accounts batch_idx st pe)
  show ?case
  proof (cases "batch_idx < length accounts")
    case False
    with "1.prems" show ?thesis
      by (simp add: process_batches.simps accounted_Nil)
  next
    case True
    let ?batch = "slice accounts batch_idx (batch_idx + BATCH_SIZE)"
    from gather_batch_accounted [OF "1.prems", of net api_name batch_idx ?batch pe]
    obtain rs1 st1 pe1 where
      g: "gather_batch net api_name batch_idx ?batch st pe = (Inr rs1, st1, pe1)"
      and a1: "accounted st st1 rs1" and l1: "length rs1 = length ?batch"
      by blast
    from accounted_present [OF a1] obtain s1 f1 c1 where
      p1: "success st1 = Some s1" "failed st1 = Some f1" "completed st1 = Some c1"
      by blast
    from "1.IH" [OF True refl g [symmetric] refl refl p1]
    obtain rs2 st2 pe2 where
      r: "process_batches net api_name accounts (batch_idx + BATCH_SIZE) st1 pe1 = (Inr rs2, st2, pe2)"
      and a2: "accounted st1 st2 rs2" and l2: "length rs2 = length accounts - (batch_idx + BATCH_SIZE)"
      by blast
    have "length (rs1 @ rs2) = length accounts - batch_idx"
      using l1 l2 True by (simp add: slice_def)
    with True g r accounted_trans [OF a1 a2] show ?thesis
      by (simp add: process_batches.simps [of net api_name accounts batch_idx])
  qed
qed

section \<open>Accounting of a region: lemmas\<close>

lemma process_api_batch_accounted:
  assumes "success st = Some s" and "failed st = Some f" and "completed st = Some c"
  shows "\<exists>rs st' pe'. process_api_batch net api_name accounts st pe = (Inr rs, st', pe')
    \<and> accounted st st' rs \<and> length rs = length accounts"
proof (cases "accounts = []")
  case True
  with assms show ?thesis by (simp add: process_api_batch_def accounted_Nil)
next
  case False
  with process_batches_accounted [OF assms, of net api_name accounts 0 pe] show ?thesis
    by (simp add: process_api_batch_def)
qed

lemma gather_apis_accounted:
  assumes "success st = Some s" and "failed st = Some f" and "completed st = Some c"
  shows "\<exists>rss st' pe'. gather_apis net d st pe = (Inr rss, st', pe')
    \<and> accounted st st' (concat rss) \<and> length (concat rss) = length (concat (map shard d))"
  using assms
proof (induction d arbitrary: st pe s f c)
  case Nil
  then show ?case by (simp add: accounted_Nil)
next
  case (Cons e d)
  obtain api_url api_name accounts_group where e: "e = (api_url, api_name, accounts_group)"
    by (cases e) auto
  from process_api_batch_accounted [OF Cons.prems, of "net api_name" api_name accounts_group pe]
  obtain rs st1 pe1 where
    b: "process_api_batch (net api_name) api_name accounts_group st pe = (Inr rs, st1, pe1)"
    and a1: "accounted st st1 rs" and l1: "length rs = length accounts_group"
    by blast
  from accounted_present [OF a1] obtain s1 f1 c1 where
    p1: "success st1 = Some s1" "failed st1 = Some f1" "completed st1 = Some c1"
    by blast
  from Cons.IH [OF p1, of pe1] obtain rss st2 pe2 where
    r: "gather_apis net d st1 pe1 = (Inr rss, st2, pe2)"
    and a2: "accounted st1 st2 (concat rss)"
    and l2: "length (concat rss) = length (concat (map shard d))"
    by blast
  from accounted_trans [OF a1 a2] have "accounted st st2 (concat (rs # rss))" by simp
  moreover have "length (concat (rs # rss)) = length (concat (map shard (e # d)))"
    using l1 l2 by (simp add: e shard_simp)
  ultimately show ?case using b r by (simp add: e)
qed

lemma run_completed_present:
  assumes "success st = Some s" and "failed st = Some f" and "completed st = Some c"
  shows "\<exists>st' pe' s' f' c'. run_completed net d finished st pe = (Inr (), st', pe')
    \<and> success st' = Some s' \<and> failed st' = Some f' \<and> completed st' = Some c'
    \<and> total st' = total st"
  using assms
proof (induction finished arbitrary: st pe s f c)
  case Nil
  then show ?case by simp
next
  case (Cons e finished)
  obtain api_name idx where e: "e = (api_name, idx)" by (cases e) auto
  show ?case
  proof (cases "account_at d api_name idx")
    case None
    with Cons.IH [OF Cons.prems, of pe] show ?thesis by (simp add: e)
  next
    case (Some acc)
    from fetch_token_with_timeout_accounted [OF Cons.prems, of "net api_name idx" "uid acc" api_name pe]
    obtain r st1 pe1 where
      call: "fetch_token_with_timeout (net api_name idx) (uid acc) api_name st pe = (Inr r, st1, pe1)"
      and a1: "accounted st st1 [r]"
      by blast
    from accounted_present [OF a1] obtain s1 f1 c1 where
      p1: "success st1 = Some s1" "failed st1 = Some f1" "completed st1 = Some c1"
      by blast
    from a1 have t1: "total st1 = total st" by (auto simp: accounted_def)
    from Cons.IH [OF p1, of pe1] t1 call Some show ?thesis by (simp add: e)
  qed
qed

lemma region_setup_counters:
  "success (region_setup region n st) = Some 0 \<and> failed (region_setup region n st) = Some 0
   \<and> completed (region_setup region n st) = Some 0 \<and> timed_out (region_setup region n st) = Some 0
   \<and> total (region_setup region n st) = Some (int n)
   \<and> rate_limit_manager (region_setup region n st) = Some RateLimitManager_init
   \<and> api_usage (region_setup region n st) = api_usage st"
  by (simp add: region_setup_def)

lemma count_tokens: "length (List.map_filter id rs) = length (filter (\<lambda>r. r \<noteq> None) rs)"
  by (simp add: List.map_filter_def)

lemma count_split:
  "length (filter (\<lambda>r. r \<noteq> None) rs) + length (filter (\<lambda>r. r = None) rs) = length (rs :: 'a option list)"
  by (induction rs) auto

lemma process_region_completes:
  assumes "accounts_file env = Some accounts"
    and "List.map_filter as_account accounts \<noteq> []"
    and "region_timeout env = None"
  shows "\<exists>res st' fs'. process_region env region st fs = (Inr (Some res), st', fs')
    \<and> res_total res = int (length (List.map_filter as_account accounts))
    \<and> total st' = Some (res_total res)
    \<and> completed st' = Some (res_total res)
    \<and> success st' = Some (res_success res)
    \<and> failed st' = Some (res_failed res)
    \<and> res_success res + res_failed res = res_total res"
proof -
  let ?valid = "List.map_filter as_account accounts"
  let ?n = "length ?valid"
  let ?d = "distribute_accounts_across_apis ?valid"
  let ?st0 = "region_setup region ?n st"
  note init = region_setup_counters [of region "?n" st]
  from init have p0: "success ?st0 = Some 0" "failed ?st0 = Some 0" "completed ?st0 = Some 0"
    by simp_all
  from gather_apis_accounted [OF p0, of "network env" ?d False]
  obtain rss st1 pe1 where
    g: "gather_apis (network env) ?d ?st0 False = (Inr rss, st1, pe1)"
    and a: "accounted ?st0 st1 (concat rss)"
    and l: "length (concat rss) = length (concat (map shard ?d))"
    by blast
  from l have len: "length (concat rss) = ?n" by (simp only: distribute_concat)
  let ?tokens = "List.map_filter id (concat rss)"
  from a p0 init have counters:
    "success st1 = Some (int (length (filter (\<lambda>r. r \<noteq> None) (concat rss))))"
    "failed st1 = Some (int (length (filter (\<lambda>r. r = None) (concat rss))))"
    "completed st1 = Some (int (length (concat rss)))"
    "total st1 = Some (int ?n)"
    by (auto simp: accounted_def)
  from count_split [of "concat rss"] len
  have split: "int (length (filter (\<lambda>r. r = None) (concat rss)))
      = int ?n - int (length (filter (\<lambda>r. r \<noteq> None) (concat rss)))"
    by linarith
  from assms(2) have n: "?n \<noteq> 0" by simp
  have run: "process_region env region st fs =
      (Inr (Some \<lparr>res_region = upper region, res_total = int ?n,
                  res_success = int (length ?tokens),
                  res_failed = int ?n - int (length ?tokens)\<rparr>),
       st1, save_and_push env region ?tokens fs)"
    using assms(1) assms(3) n g
    by (simp add: process_region_def fetch_phase_def Let_def)
  show ?thesis
    using run counters split len by (simp add: count_tokens)
qed

lemma process_region_timeout:
  assumes "accounts_file env = Some accounts"
    and "List.map_filter as_account accounts \<noteq> []"
    and "region_timeout env = Some finished"
  shows "\<exists>st' fs'. process_region env region st fs =
      (Inr (Some \<lparr>res_region = upper region,
                  res_total = int (length (List.map_filter as_account accounts)),
                  res_success = 0,
                  res_failed = int (length (List.map_filter as_account accounts))\<rparr>), st', fs')
    \<and> fs' = save_and_push env region [] fs
    \<and> total st' = Some (int (length (List.map_filter as_account accounts)))"
proof -
  let ?valid = "List.map_filter as_account accounts"
  let ?n = "length ?valid"
  let ?d = "distribute_accounts_across_apis ?valid"
  let ?st0 = "region_setup region ?n st"
  note init = region_setup_counters [of region "?n" st]
  from init have p0: "success ?st0 = Some 0" "failed ?st0 = Some 0" "completed ?st0 = Some 0"
    by simp_all
  from run_completed_present [OF p0, of "network env" ?d finished False]
  obtain st1 pe1 where
    g: "run_completed (network env) ?d finished ?st0 False = (Inr (), st1, pe1)"
    and t: "total st1 = total ?st0"
    by blast
  from assms(2) have n: "?n \<noteq> 0" by simp
  have none: "List.map_filter id (replicate ?n (None :: string option)) = []"
    by (simp add: List.map_filter_def)
  show ?thesis
    using assms(1) assms(3) n g t init none
    by (simp add: process_region_def fetch_phase_def Let_def)
qed

section \<open>The pause signal: the claim\<close>

text \<open>
  C3 fails on the code. A caller that was not first enters its branch 1000 ms after
  the pause signal was set. \<open>pause_event.wait()\<close> waits for the flag to be set, and it is
  set: the call returns at once, the caller sleeps 100 ms and goes on at 1100 ms, while
  the signal stays set until 5000 ms. The claim has it blocked until the signal clears.
\<close>

theorem wait_returns_while_paused:
  "pause_signal 0 1000 \<and> wait_if_paused (pause_signal 0) 1000 = Some 1100 \<and> pause_signal 0 1100"
  by (simp add: pause_signal_def wait_if_paused_def Event_wait_def)

section \<open>Per-item timeout: the claim\<close>

text \<open>
  C9. When the timeout of \<open>asyncio.wait_for\<close> expires in attempt \<open>k\<close> of a fetch whose
  earlier attempts brought no token, and the counters are present (as they are after
  the setup of the region), \<open>fetch_token_with_timeout\<close> returns \<open>None\<close> and adds exactly
  one to \<open>failed\<close>, one to \<open>completed\<close> and one to \<open>timed_out\<close>; \<open>success\<close>, \<open>total\<close>
  and \<open>api_usage\<close> are as before. The cancelled \<open>fetch_token\<close> accounted nothing.
\<close>

theorem fetch_token_with_timeout_on_timeout:
  assumes "k < MAX_RETRIES" and "net k = ItemTimeout"
    and "\<forall>j<k. \<exists>resp. net j = Response resp \<and> \<not> has_token resp"
    and "success st = Some s" and "failed st = Some f" and "completed st = Some c"
  shows "\<exists>st' pe'. fetch_token_with_timeout net u api_name st pe = (Inr None, st', pe')
    \<and> failed st' = Some (f + 1)
    \<and> completed st' = Some (c + 1)
    \<and> timed_out st' = Some ((case timed_out st of None \<Rightarrow> 0 | Some n \<Rightarrow> n) + 1)
    \<and> success st' = Some s
    \<and> total st' = total st
    \<and> api_usage st' = api_usage st"
proof -
  obtain ex st1 pe1 where
    loop: "fetch_token_loop net u api_name [0..<MAX_RETRIES] st pe = (ex, st1, pe1)"
    by (cases "fetch_token_loop net u api_name [0..<MAX_RETRIES] st pe") auto
  have pre: "\<forall>j\<in>set [0..<k]. (\<exists>resp. net j = Response resp \<and> \<not> has_token resp) \<and> j \<noteq> MAX_RETRIES - 1"
    using assms(1) assms(3) by auto
  from fetch_token_loop_cancelled [OF assms(2) pre, of u api_name "[Suc k..<MAX_RETRIES]" st pe]
    upt_split [OF assms(1)] loop
  have ex: "ex = TaskCancelled" by simp
  from fetch_token_loop_counters [OF assms(4) assms(6) loop] ex
  have c: "failed st1 = failed st" "timed_out st1 = timed_out st" "total st1 = total st"
    "success st1 = Some s" "completed st1 = Some c" "api_usage st1 = api_usage st"
    by simp_all
  show ?thesis
    using loop ex c assms(5)
    by (simp add: fetch_token_with_timeout_def fetch_token_def incr_failed_def incr_completed_def)
qed

theorem fetch_token_with_timeout_on_timeout_witness:
  "(4::nat) < MAX_RETRIES
   \<and> (\<lambda>attempt. if attempt < 4 then Response RequestError else ItemTimeout) (4::nat) = ItemTimeout
   \<and> (\<exists>st' pe'. fetch_token_with_timeout
          (\<lambda>attempt. if attempt < 4 then Response RequestError else ItemTimeout)
          ''1001'' ''API_1'' (region_setup ''ind'' 1 empty_stats) False = (Inr None, st', pe')
        \<and> failed st' = Some 1 \<and> completed st' = Some 1 \<and> timed_out st' = Some 1
        \<and> success st' = Some 0 \<and> total st' = Some 1)"
proof -
  let ?net = "\<lambda>attempt::nat. if attempt < 4 then Response RequestError else ItemTimeout"
  let ?st = "region_setup ''ind'' 1 empty_stats"
  have k: "(4::nat) < MAX_RETRIES" by (simp add: MAX_RETRIES_def)
  have t: "?net 4 = ItemTimeout" by simp
  have before: "\<forall>j<4::nat. \<exists>resp. ?net j = Response resp \<and> \<not> has_token resp"
    by (simp add: has_token_def)
  have s: "success ?st = Some 0" and f: "failed ?st = Some 0" and c: "completed ?st = Some 0"
    by (simp_all add: region_setup_def)
  have more: "timed_out ?st = Some 0" "total ?st = Some 1"
    by (simp_all add: region_setup_def)
  from fetch_token_with_timeout_on_timeout [OF k t before s f c, of "''1001''" "''API_1''" False] more
  obtain st' pe' where
    "fetch_token_with_timeout ?net ''1001'' ''API_1'' ?st False = (Inr None, st', pe')"
    "failed st' = Some 1" "completed st' = Some 1" "timed_out st' = Some 1"
    "success st' = Some 0" "total st' = Some 1"
    by auto
  with k show ?thesis by auto
qed

section \<open>One accounting per fetch: the claim\<close>

text \<open>
  C10. With the counters present, every call of \<open>fetch_token_with_timeout\<close> returns (it
  raises nothing), adds exactly one to \<open>completed\<close>, and adds exactly one to \<open>success\<close>
  when it returns a token and exactly one to \<open>failed\<close> when it returns \<open>None\<close>, leaving the
  other of the two as it was. And when a region with at least one valid record ends its
  fetch phase without the region timeout, \<open>process_region\<close> returns a result and leaves
  \<open>completed = success + failed\<close>, all of them present, with \<open>completed\<close> and \<open>total\<close>
  equal to the number of valid records.
\<close>

theorem fetch_accounting_once:
  "(success st = Some s \<and> failed st = Some f \<and> completed st = Some c \<longrightarrow>
      (\<exists>r st' pe'. fetch_token_with_timeout net u api_name st pe = (Inr r, st', pe')
         \<and> completed st' = Some (c + 1)
         \<and> (if r = None then success st' = Some s \<and> failed st' = Some (f + 1)
             else success st' = Some (s + 1) \<and> failed st' = Some f)))
   \<and> (accounts_file env = Some accounts \<and> List.map_filter as_account accounts \<noteq> []
        \<and> region_timeout env = None \<longrightarrow>
      (\<exists>res st' fs' n a b. process_region env region st0 fs = (Inr (Some res), st', fs')
         \<and> completed st' = Some n \<and> success st' = Some a \<and> failed st' = Some b
         \<and> n = a + b
         \<and> n = int (length (List.map_filter as_account accounts))
         \<and> total st' = Some n))"
proof (intro conjI impI)
  assume p: "success st = Some s \<and> failed st = Some f \<and> completed st = Some c"
  then have p1: "success st = Some s" and p2: "failed st = Some f" and p3: "completed st = Some c"
    by simp_all
  from fetch_token_with_timeout_accounting [OF p1 p2 p3, of net u api_name pe]
  obtain r st' pe' where call: "fetch_token_with_timeout net u api_name st pe = (Inr r, st', pe')"
    and c: "completed st' = Some (c + 1)"
    and r: "case r of
          Some t \<Rightarrow> success st' = Some (s + 1) \<and> failed st' = Some f \<and> timed_out st' = timed_out st
        | None \<Rightarrow> success st' = Some s \<and> failed st' = Some (f + 1) \<and> api_usage st' = api_usage st"
    by blast
  from r have "if r = None then success st' = Some s \<and> failed st' = Some (f + 1)
             else success st' = Some (s + 1) \<and> failed st' = Some f"
    by (cases r) auto
  with call c show "\<exists>r st' pe'. fetch_token_with_timeout net u api_name st pe = (Inr r, st', pe')
         \<and> completed st' = Some (c + 1)
         \<and> (if r = None then success st' = Some s \<and> failed st' = Some (f + 1)
             else success st' = Some (s + 1) \<and> failed st' = Some f)"
    by blast
next
  assume a: "accounts_file env = Some accounts \<and> List.map_filter as_account accounts \<noteq> []
        \<and> region_timeout env = None"
  then have a1: "accounts_file env = Some accounts"
    and a2: "List.map_filter as_account accounts \<noteq> []"
    and a3: "region_timeout env = None"
    by simp_all
  from process_region_completes [OF a1 a2 a3, of region st0 fs]
  obtain res st' fs' where run: "process_region env region st0 fs = (Inr (Some res), st', fs')"
    and t: "res_total res = int (length (List.map_filter as_account accounts))"
    and c: "total st' = Some (res_total res)" "completed st' = Some (res_total res)"
      "success st' = Some (res_success res)" "failed st' = Some (res_failed res)"
      "res_success res + res_failed res = res_total res"
    by blast
  then show "\<exists>res st' fs' n a b. process_region env region st0 fs = (Inr (Some res), st', fs')
         \<and> completed st' = Some n \<and> success st' = Some a \<and> failed st' = Some b
         \<and> n = a + b
         \<and> n = int (length (List.map_filter as_account accounts))
         \<and> total st' = Some n"
    by (metis (no_types))
qed

theorem fetch_accounting_once_witness:
  "(\<exists>r st' pe'. fetch_token_with_timeout (\<lambda>attempt. Response (Status200 (Some ''tokA'')))
        ''1001'' ''API_1'' (region_setup ''ind'' 2 empty_stats) False = (Inr r, st', pe')
      \<and> completed st' = Some 1
      \<and> (if r = None then success st' = Some 0 \<and> failed st' = Some 1
          else success st' = Some 1 \<and> failed st' = Some 0))
   \<and> (\<exists>res st' fs' a b.
        process_region
          \<lparr>accounts_file = Some [Dict (Some ''1001'') (Some ''pw1''), Dict (Some ''1002'') (Some ''pw2'')],
           network = (\<lambda>api_name idx attempt.
              if api_name = ''API_1'' then Response (Status200 (Some ''tokA''))
              else if attempt < 6 then Response Status500 else ItemTimeout),
           region_timeout = None, write_ok = True, github_token = Some ''ghp_x'',
           puts = (\<lambda>attempt. PutStatus 200)\<rparr>
          ''ind'' empty_stats Map.empty = (Inr (Some res), st', fs')
      \<and> completed st' = Some 2 \<and> success st' = Some a \<and> failed st' = Some b \<and> a + b = 2
      \<and> total st' = Some 2)"
proof -
  let ?accounts = "[Dict (Some ''1001'') (Some ''pw1''), Dict (Some ''1002'') (Some ''pw2'')]"
  let ?env = "\<lparr>accounts_file = Some ?accounts,
           network = (\<lambda>api_name idx attempt.
              if api_name = ''API_1'' then Response (Status200 (Some ''tokA''))
              else if attempt < 6 then Response Status500 else ItemTimeout),
           region_timeout = None, write_ok = True, github_token = Some ''ghp_x'',
           puts = (\<lambda>attempt. PutStatus 200)\<rparr>"
  let ?st = "region_setup ''ind'' 2 empty_stats"
  note h = fetch_accounting_once [of ?st 0 0 0 "\<lambda>attempt. Response (Status200 (Some ''tokA''))"
      "''1001''" "''API_1''" False ?env ?accounts "''ind''" empty_stats Map.empty]
  have keys: "success ?st = Some 0 \<and> failed ?st = Some 0 \<and> completed ?st = Some 0"
    by (simp add: region_setup_def)
  have valid: "List.map_filter as_account ?accounts
      = [\<lparr>uid = ''1001'', password = ''pw1''\<rparr>, \<lparr>uid = ''1002'', password = ''pw2''\<rparr>]"
    by (simp add: map_filter_simps as_account_def)
  have world: "accounts_file ?env = Some ?accounts \<and> List.map_filter as_account ?accounts \<noteq> []
      \<and> region_timeout ?env = None"
    unfolding valid by simp
  from h [THEN conjunct1, THEN mp, OF keys]
  have one: "\<exists>r st' pe'. fetch_token_with_timeout (\<lambda>attempt. Response (Status200 (Some ''tokA'')))
        ''1001'' ''API_1'' ?st False = (Inr r, st', pe')
      \<and> completed st' = Some 1
      \<and> (if r = None then success st' = Some 0 \<and> failed st' = Some 1
          else success st' = Some 1 \<and> failed st' = Some 0)"
    by (simp only: add_0)
  from h [THEN conjunct2, THEN mp, OF world]
  have "\<exists>res st' fs' n a b. process_region ?env ''ind'' empty_stats Map.empty
          = (Inr (Some res), st', fs')
         \<and> completed st' = Some n \<and> success st' = Some a \<and> failed st' = Some b
         \<and> n = a + b
         \<and> n = int (length (List.map_filter as_account ?accounts))
         \<and> total st' = Some n"
    by this
  then have all: "\<exists>res st' fs' a b. process_region ?env ''ind'' empty_stats Map.empty
          = (Inr (Some res), st', fs')
      \<and> completed st' = Some 2 \<and> success st' = Some a \<and> failed st' = Some b \<and> a + b = 2
      \<and> total st' = Some 2"
    unfolding valid by auto
  from one all show ?thesis by blast
qed

section \<open>Region timeout: the claim\<close>

lemma map_filter_as_account_map:
  "List.map_filter as_account (map (\<lambda>i. Dict (Some (g i)) (Some p)) xs)
     = map (\<lambda>i. \<lparr>uid = g i, password = p\<rparr>) xs"
  by (induction xs) (simp_all add: map_filter_simps as_account_def)

lemma upper_ind: "upper ''ind'' = ''IND''"
  by code_simp

text \<open>
  C4 as stated fails. A region of 600 valid records, 200 per endpoint in 7 batches: the
  first record of \<open>API_1\<close> gets its token at once, every other record gets HTTP 500
  until its own timeout of 180 s, so the seventh batch is still running when the
  region timeout fires with 180 fetches per endpoint completed. The resolved record
  returned its token, and yet the region result has no success and 600 failures: the
  outcome of a record already resolved is not kept.
\<close>

theorem region_timeout_keeps_resolved_counterexample:
  "(let env = \<lparr>accounts_file = Some (map (\<lambda>i. Dict (Some (str_nat (1000 + i))) (Some ''pw'')) [0..<600]),
               network = (\<lambda>api_name idx attempt.
                  if api_name = ''API_1'' \<and> idx = 0 then Response (Status200 (Some ''tokA''))
                  else if attempt < 6 then Response Status500 else ItemTimeout),
               region_timeout = Some (concat (map (\<lambda>api_name. map (\<lambda>idx. (api_name, idx)) [0..<180])
                                                [''API_1'', ''API_2'', ''API_3''])),
               write_ok = True, github_token = Some ''ghp_x'',
               puts = (\<lambda>attempt. PutStatus 200)\<rparr>
    in fst (fetch_token_with_timeout (network env ''API_1'' 0) (str_nat 1000) ''API_1''
              (region_setup ''ind'' 600 empty_stats) False) = Inr (Some ''tokA'')
     \<and> fst (process_region env ''ind'' empty_stats Map.empty)
         = Inr (Some \<lparr>res_region = ''IND'', res_total = 600, res_success = 0, res_failed = 600\<rparr>))"
proof -
  let ?accounts = "map (\<lambda>i. Dict (Some (str_nat (1000 + i))) (Some ''pw'')) [0..<600]"
  let ?net = "\<lambda>api_name idx attempt.
                  if api_name = ''API_1'' \<and> idx = (0::nat) then Response (Status200 (Some ''tokA''))
                  else if attempt < (6::nat) then Response Status500 else ItemTimeout"
  let ?finished = "concat (map (\<lambda>api_name. map (\<lambda>idx. (api_name, idx)) [0..<180::nat])
                                                [''API_1'', ''API_2'', ''API_3''])"
  let ?env = "\<lparr>accounts_file = Some ?accounts, network = ?net, region_timeout = Some ?finished,
               write_ok = True, github_token = Some ''ghp_x'',
               puts = (\<lambda>attempt. PutStatus 200)\<rparr>"
  have valid: "List.map_filter as_account ?accounts
      = map (\<lambda>i. \<lparr>uid = str_nat (1000 + i), password = ''pw''\<rparr>) [0..<600]"
    by (rule map_filter_as_account_map)
  have ne: "List.map_filter as_account ?accounts \<noteq> []"
    unfolding valid by simp
  have len: "length (List.map_filter as_account ?accounts) = 600"
    unfolding valid by simp
  have a: "accounts_file ?env = Some ?accounts" by simp
  have t: "region_timeout ?env = Some ?finished" by simp
  from process_region_timeout [OF a ne t, of "''ind''" empty_stats Map.empty]
  have region: "fst (process_region ?env ''ind'' empty_stats Map.empty)
         = Inr (Some \<lparr>res_region = ''IND'', res_total = 600, res_success = 0, res_failed = 600\<rparr>)"
    unfolding len upper_ind by auto
  have first: "fst (fetch_token_with_timeout (\<lambda>attempt. Response (Status200 (Some ''tokA'')))
      (str_nat 1000) ''API_1'' (region_setup ''ind'' 600 empty_stats) False) = Inr (Some ''tokA'')"
    by code_simp
  show ?thesis
    unfolding Let_def using region first by simp
qed

text \<open>
  C4, amended. When the region timeout expires during the fetch phase of a region with
  at least one valid record, every record of the region counts as absent, those already
  resolved with a token included: \<open>process_region\<close> returns a result with \<open>success = 0\<close>
  and \<open>failed = total\<close>, the token list it saves and pushes is empty, and \<open>total\<close> (in the
  result and in \<open>stats\<close>) is the number of valid records.
\<close>

theorem region_timeout_all_absent:
  assumes "accounts_file env = Some accounts"
    and "List.map_filter as_account accounts \<noteq> []"
    and "region_timeout env = Some finished"
  shows "\<exists>st' fs'. process_region env region st fs =
      (Inr (Some \<lparr>res_region = upper region,
                  res_total = int (length (List.map_filter as_account accounts)),
                  res_success = 0,
                  res_failed = int (length (List.map_filter as_account accounts))\<rparr>), st', fs')
    \<and> fs' = save_and_push env region [] fs
    \<and> total st' = Some (int (length (List.map_filter as_account accounts)))"
  using assms by (rule process_region_timeout)

theorem region_timeout_all_absent_witness:
  "(let env = \<lparr>accounts_file = Some [Dict (Some ''1001'') (Some ''pw1''), NotADict,
                                     Dict (Some ''1002'') (Some ''pw2'')],
               network = (\<lambda>api_name idx attempt. Response (Status200 (Some ''tokA''))),
               region_timeout = Some [(''API_1'', 0)],
               write_ok = True, github_token = Some ''ghp_x'',
               puts = (\<lambda>attempt. PutStatus 200)\<rparr>
    in accounts_file env = Some [Dict (Some ''1001'') (Some ''pw1''), NotADict,
                                 Dict (Some ''1002'') (Some ''pw2'')]
     \<and> region_timeout env = Some [(''API_1'', 0)]
     \<and> fst (process_region env ''ind'' empty_stats Map.empty)
         = Inr (Some \<lparr>res_region = upper ''ind'', res_total = 2, res_success = 0, res_failed = 2\<rparr>))"
proof -
  let ?accounts = "[Dict (Some ''1001'') (Some ''pw1''), NotADict, Dict (Some ''1002'') (Some ''pw2'')]"
  let ?env = "\<lparr>accounts_file = Some ?accounts,
               network = (\<lambda>api_name idx attempt. Response (Status200 (Some ''tokA''))),
               region_timeout = Some [(''API_1'', 0::nat)],
               write_ok = True, github_token = Some ''ghp_x'',
               puts = (\<lambda>attempt. PutStatus 200)\<rparr>"
  have valid: "List.map_filter as_account ?accounts
      = [\<lparr>uid = ''1001'', password = ''pw1''\<rparr>, \<lparr>uid = ''1002'', password = ''pw2''\<rparr>]"
    by (simp add: map_filter_simps as_account_def)
  have ne: "List.map_filter as_account ?accounts \<noteq> []"
    unfolding valid by simp
  have a: "accounts_file ?env = Some ?accounts" by simp
  have t: "region_timeout ?env = Some [(''API_1'', 0)]" by simp
  from region_timeout_all_absent [OF a ne t, of "''ind''" empty_stats Map.empty]
  have "fst (process_region ?env ''ind'' empty_stats Map.empty)
         = Inr (Some \<lparr>res_region = upper ''ind'', res_total = 2, res_success = 0, res_failed = 2\<rparr>)"
    unfolding valid by auto
  then show ?thesis
    unfolding Let_def by simp
qed

section \<open>The local token file: the claim\<close>

lemma push_loop_fails:
  "\<forall>a\<in>set as. p a = PutStatus 500 \<Longrightarrow> push_loop p as = False"
  by (induction as) auto

text \<open>
  C7 fails on the code. With a configured token and HTTP 500 on all 15 attempts,
  \<open>push_to_github\<close> returns \<open>False\<close>, and the local token file that \<open>process_region\<close>
  wrote is removed all the same: the value \<open>push_to_github\<close> returns is not looked at.
\<close>

theorem local_file_removed_after_failed_push:
  "push_to_github (Some ''ghp_x'') (\<lambda>attempt. PutStatus 500) ''token_ind.json'' [''tokA''] = False
   \<and> save_and_push
        \<lparr>accounts_file = None, network = (\<lambda>api_name idx attempt. ItemTimeout), region_timeout = None,
         write_ok = True, github_token = Some ''ghp_x'', puts = (\<lambda>attempt. PutStatus 500)\<rparr>
        ''ind'' [''tokA''] Map.empty (''tokens/token_ind.json'') = None"
  by (simp add: push_to_github_def push_loop_fails save_and_push_def Let_def TOKENS_DIR_def)

section \<open>The statistics at the start of a region: the claim\<close>

text \<open>
  The setup of a region writes the five counters and leaves \<open>api_usage\<close> as the region
  before left it.
\<close>

lemma api_usage_survives_region_setup:
  "(let env1 = \<lparr>accounts_file = Some [Dict (Some ''1001'') (Some ''pw1'')],
                 network = (\<lambda>api_name idx attempt. Response (Status200 (Some ''tokA''))),
                 region_timeout = None, write_ok = True, github_token = Some ''ghp_x'',
                 puts = (\<lambda>attempt. PutStatus 200)\<rparr>;
        st1 = fst (snd (process_region env1 ''bd'' empty_stats Map.empty));
        st2 = region_setup ''ind'' 1 st1
    in success st1 = Some 1
     \<and> (case api_usage st1 of None \<Rightarrow> None | Some usage \<Rightarrow> usage ''API_1'') = Some 1
     \<and> success st2 = Some 0 \<and> completed st2 = Some 0 \<and> failed st2 = Some 0
     \<and> timed_out st2 = Some 0 \<and> total st2 = Some 1
     \<and> (case api_usage st2 of None \<Rightarrow> None | Some usage \<Rightarrow> usage ''API_1'') = Some 1)"
  by code_simp

text \<open>
  C8 fails on the code. One invocation runs two regions of one record each: the record
  of \<open>bd\<close> gets its token from \<open>API_1\<close>, the record of \<open>ind\<close> gets HTTP 500 on six
  attempts and then runs into its timeout of 180 s. At the end of region \<open>ind\<close> its
  counters say no success and one failure, and \<open>api_usage\<close> still says one token from
  \<open>API_1\<close>: the count of region \<open>bd\<close>.
\<close>

theorem api_usage_survives_next_region:
  "(let env1 = \<lparr>accounts_file = Some [Dict (Some ''1001'') (Some ''pw1'')],
                 network = (\<lambda>api_name idx attempt. Response (Status200 (Some ''tokA''))),
                 region_timeout = None, write_ok = True, github_token = Some ''ghp_x'',
                 puts = (\<lambda>attempt. PutStatus 200)\<rparr>;
        env2 = \<lparr>accounts_file = Some [Dict (Some ''2001'') (Some ''pw2'')],
                 network = (\<lambda>api_name idx attempt.
                    if attempt < 6 then Response Status500 else ItemTimeout),
                 region_timeout = None, write_ok = True, github_token = Some ''ghp_x'',
                 puts = (\<lambda>attempt. PutStatus 200)\<rparr>
    in case run_token_fetch [(''bd'', env1), (''ind'', env2)] None Map.empty of
         (r, None, fs) \<Rightarrow> False
       | (r, Some st, fs) \<Rightarrow>
           current_region st = Some ''IND'' \<and> total st = Some 1 \<and> completed st = Some 1
           \<and> success st = Some 0 \<and> failed st = Some 1 \<and> timed_out st = Some 1
           \<and> (case api_usage st of None \<Rightarrow> None | Some usage \<Rightarrow> usage ''API_1'') = Some 1)"
  by code_simp

end
